theory Spec2Isabelle
  imports Complex_Main
begin

section \<open>JavaScript numbers\<close>

text \<open>
  The numbers of the source are modelled as reals: a frequency, a clarity, a tempo and
  an interval are values of type \<open>real\<close>, a millisecond timestamp of \<open>Date.now()\<close> and
  a beat counter are values of type \<open>int\<close>. Where a JavaScript operation leaves the
  finite numbers (\<open>Math.log2\<close> of a non-positive number, a division by zero) the model
  returns \<open>None\<close> and the caller takes the branch that \<open>NaN\<close> or an infinity takes.
  The tuner and the metronome are modelled in exact arithmetic. The two divisions of the
  tap tempo are rounded to the nearest double, because the tempo they yield depends on
  the rounding when the quotient is next to a tie of \<open>Math.round\<close>.
\<close>

definition Math_round :: "real \<Rightarrow> int" where
  \<comment> \<open>\<open>Math.round\<close>: the nearest integer, a tie going up.\<close>
  "Math_round x = \<lfloor>x + 1 / 2\<rfloor>"

definition Math_log2 :: "real \<Rightarrow> real option" where
  \<comment> \<open>\<open>Math.log2\<close>: \<open>NaN\<close> below zero and \<open>-Infinity\<close> at zero are \<open>None\<close>.\<close>
  "Math_log2 x = (if 0 < x then Some (log 2 x) else None)"

definition round_half_even :: "real \<Rightarrow> int" where
  \<comment> \<open>The nearest integer, a tie going to the even one.\<close>
  "round_half_even y =
     (let f = \<lfloor>y\<rfloor>; r = y - of_int f
      in if r < 1 / 2 then f else if 1 / 2 < r then f + 1 else if even f then f else f + 1)"

definition fl :: "real \<Rightarrow> real" where
  \<comment> \<open>The nearest IEEE 754 binary64 number, a tie going to the even significand: for
     \<open>2^e \<le> |x| < 2^(e+1)\<close> the doubles are the multiples of \<open>2^(e-52)\<close>. The exponent is
     not bounded; the quotients of the tap tempo stay far inside the range of binary64.\<close>
  "fl x =
     (if x = 0 then 0
      else (let e = \<lfloor>log 2 \<bar>x\<bar>\<rfloor>
            in of_int (round_half_even (x * 2 powr of_int (52 - e))) * 2 powr of_int (e - 52)))"

definition js_div :: "real \<Rightarrow> real \<Rightarrow> real option" where
  \<comment> \<open>The operator \<open>/\<close> on doubles; \<open>None\<close> is \<open>NaN\<close> or an infinity (a zero divisor).\<close>
  "js_div a b = (if b = 0 then None else Some (fl (a / b)))"

definition js_rem :: "int \<Rightarrow> int \<Rightarrow> int" where
  \<comment> \<open>The operator \<open>%\<close> on integers: the result has the sign of the dividend.\<close>
  "js_rem a b = (if 0 \<le> a then a mod \<bar>b\<bar> else - ((- a) mod \<bar>b\<bar>))"

section \<open>Tuner: the tuning tracker\<close>

record GuitarString =
  name :: string
  freq :: real
  tuned :: bool
  tuningStartTime :: "int option"

definition guitarStrings0 :: "GuitarString list" where
  \<comment> \<open>The initial value of the \<open>guitarStrings\<close> state.\<close>
  "guitarStrings0 =
    [\<lparr>name = ''E'', freq = 8241 / 100, tuned = False, tuningStartTime = None\<rparr>,
     \<lparr>name = ''A'', freq = 110, tuned = False, tuningStartTime = None\<rparr>,
     \<lparr>name = ''D'', freq = 14683 / 100, tuned = False, tuningStartTime = None\<rparr>,
     \<lparr>name = ''G'', freq = 196, tuned = False, tuningStartTime = None\<rparr>,
     \<lparr>name = ''B'', freq = 24694 / 100, tuned = False, tuningStartTime = None\<rparr>,
     \<lparr>name = ''E'', freq = 32963 / 100, tuned = False, tuningStartTime = None\<rparr>]"

record Tuner =
  currentNote :: string
  cents :: int
  guitarStrings :: "GuitarString list"
  lastNoteRef :: string
  noteHoldTimeRef :: int

definition Tuner0 :: Tuner where
  \<comment> \<open>The state of the component when it is mounted.\<close>
  "Tuner0 = \<lparr>currentNote = [], cents = 0, guitarStrings = guitarStrings0,
     lastNoteRef = [], noteHoldTimeRef = 0\<rparr>"

text \<open>
  The scan of \<open>updateTuningInfo\<close>: \<open>closest\<close> and \<open>minDiff\<close> start at the first
  entry, and an entry replaces \<open>closest\<close> only when its difference is strictly smaller.
\<close>

fun closest_scan :: "real \<Rightarrow> GuitarString \<Rightarrow> real \<Rightarrow> GuitarString list \<Rightarrow> GuitarString" where
  "closest_scan f closest minDiff [] = closest"
| "closest_scan f closest minDiff (s # ss) =
     (let diff = \<bar>f - freq s\<bar>
      in if diff < minDiff then closest_scan f s diff ss
         else closest_scan f closest minDiff ss)"

definition closest_string :: "GuitarString list \<Rightarrow> real \<Rightarrow> GuitarString" where
  "closest_string gs f = closest_scan f (hd gs) \<bar>f - freq (hd gs)\<bar> gs"

definition centsValue :: "real \<Rightarrow> GuitarString \<Rightarrow> int option" where
  \<comment> \<open>\<open>Math.round(1200 * Math.log2(freq / closest.freq))\<close>; \<open>None\<close> is \<open>NaN\<close> or an infinity.\<close>
  "centsValue f closest =
     (if freq closest = 0 then None
      else map_option (\<lambda>l. Math_round (1200 * l)) (Math_log2 (f / freq closest)))"

text \<open>
  \<open>updateTuningInfo\<close> is called from the effect that ran at the first render, so the
  \<open>guitarStrings\<close> it scans is the initial array; the functional update of
  \<open>setGuitarStrings\<close> works on the current state. \<open>currentTime\<close> is \<open>Date.now()\<close>.
\<close>

definition updateTuningInfo :: "real \<Rightarrow> int \<Rightarrow> Tuner \<Rightarrow> Tuner" where
  "updateTuningInfo f currentTime s =
     (let closest = closest_string guitarStrings0 f
      in case centsValue f closest of
           None \<Rightarrow> s
         | Some c \<Rightarrow>
             if \<bar>c\<bar> \<le> 50 then
               (let s1 =
                  (if lastNoteRef s = name closest then
                     (if \<bar>c\<bar> \<le> 5 \<and> currentTime - noteHoldTimeRef s \<ge> 2000 then
                        s\<lparr>guitarStrings :=
                            map (\<lambda>str. if name str = name closest then str\<lparr>tuned := True\<rparr> else str)
                              (guitarStrings s)\<rparr>
                      else s)
                   else s\<lparr>lastNoteRef := name closest, noteHoldTimeRef := currentTime\<rparr>)
                in s1\<lparr>currentNote := name closest, cents := c\<rparr>)
             else s)"

section \<open>Tuner: the frame loop\<close>

record Detector =
  pitchHistory :: "real list"
  tuner :: Tuner

definition Detector0 :: Detector where
  "Detector0 = \<lparr>pitchHistory = [], tuner = Tuner0\<rparr>"

definition maxHistoryLength :: nat where
  "maxHistoryLength = 5"

definition frame_accepted :: "real \<Rightarrow> real \<Rightarrow> bool" where
  \<comment> \<open>The condition of \<open>detectPitch\<close> on \<open>detectedPitch\<close> and \<open>detectedClarity\<close>.\<close>
  "frame_accepted detectedPitch detectedClarity =
     (detectedClarity > 8 / 10 \<and> detectedPitch > 50 \<and> detectedPitch < 2000)"

definition push_history :: "real list \<Rightarrow> real \<Rightarrow> real list" where
  \<comment> \<open>\<open>push\<close>, then one \<open>shift\<close> when the length exceeds \<open>maxHistoryLength\<close>.\<close>
  "push_history h p =
     (let h1 = h @ [p] in if length h1 > maxHistoryLength then tl h1 else h1)"

definition avgPitch :: "real list \<Rightarrow> real" where
  "avgPitch h = fold (\<lambda>val sum. sum + val) h 0 / real (length h)"

text \<open>
  One run of \<open>detectPitch\<close> on the estimate \<open>(detectedPitch, detectedClarity)\<close> of the
  frame, at the time \<open>now\<close>.
\<close>

definition detectPitch :: "real \<Rightarrow> real \<Rightarrow> int \<Rightarrow> Detector \<Rightarrow> Detector" where
  "detectPitch detectedPitch detectedClarity now d =
     (if frame_accepted detectedPitch detectedClarity then
        (let h = push_history (pitchHistory d) detectedPitch
         in if length h > 0
            then d\<lparr>pitchHistory := h, tuner := updateTuningInfo (avgPitch h) now (tuner d)\<rparr>
            else d\<lparr>pitchHistory := h\<rparr>)
      else
        d\<lparr>pitchHistory := [],
          tuner := (tuner d)\<lparr>currentNote := [], cents := 0\<rparr>\<rparr>)"

definition emitted_pitch :: "real \<Rightarrow> real \<Rightarrow> Detector \<Rightarrow> real option" where
  \<comment> \<open>The smoothed frequency that one run of \<open>detectPitch\<close> hands to \<open>updateTuningInfo\<close>.\<close>
  "emitted_pitch detectedPitch detectedClarity d =
     (if frame_accepted detectedPitch detectedClarity then
        (let h = push_history (pitchHistory d) detectedPitch
         in if length h > 0 then Some (avgPitch h) else None)
      else None)"

fun run_frames :: "(real \<times> real \<times> int) list \<Rightarrow> Detector \<Rightarrow> Detector" where
  "run_frames [] d = d"
| "run_frames ((p, c, now) # fs) d = run_frames fs (detectPitch p c now d)"

fun run_updates :: "(real \<times> int) list \<Rightarrow> Tuner \<Rightarrow> Tuner" where
  "run_updates [] s = s"
| "run_updates ((f, now) # us) s = run_updates us (updateTuningInfo f now s)"

definition in_tune :: "GuitarString \<Rightarrow> real \<Rightarrow> bool" where
  \<comment> \<open>The frequency \<open>f\<close> matches the reference \<open>R\<close> with at most 5 cents of offset.\<close>
  "in_tune R f =
     (closest_string guitarStrings0 f = R
      \<and> (case centsValue f R of None \<Rightarrow> False | Some c \<Rightarrow> \<bar>c\<bar> \<le> 5))"

definition strings_inv :: "Tuner \<Rightarrow> bool" where
  \<comment> \<open>The entries keep names and frequencies, and the two E entries the same flag.\<close>
  "strings_inv s =
     (map name (guitarStrings s) = map name guitarStrings0
      \<and> map freq (guitarStrings s) = map freq guitarStrings0
      \<and> tuned (guitarStrings s ! 0) = tuned (guitarStrings s ! 5))"

subsection \<open>The nearest reference in the words of the specification\<close>

definition hz_diff :: "real \<Rightarrow> GuitarString \<Rightarrow> real" where
  "hz_diff f s = \<bar>f - freq s\<bar>"

definition nearest_spec :: "GuitarString list \<Rightarrow> real \<Rightarrow> GuitarString" where
  \<comment> \<open>The reference with the least absolute difference in Hz, the first one on a tie.\<close>
  "nearest_spec gs f =
     (let m = Min (set (map (hz_diff f) gs))
      in hd (filter (\<lambda>s. hz_diff f s = m) gs))"

section \<open>MetronomeSound: the engine of MetronomeControls\<close>

text \<open>
  The timers of the browser are part of the state: \<open>setTimeout\<close> adds a pending timer
  under a fresh positive id, \<open>clearTimeout\<close> removes it, and the browser fires a pending
  single-shot timer by removing it and running its callback. The two closures that the
  class hands to \<open>setTimeout\<close> are the constructors of \<open>callback\<close>. Every run of
  \<open>playBeat\<close> is recorded in \<open>played\<close> with the new \<open>beatCount\<close>, the beat passed to
  \<open>onBeat\<close>, and the downbeat flag of the click. The constructor creates the audio
  context, so the guard at the head of \<open>playBeat\<close> never returns; the oscillator, filter
  and gain nodes of the click touch no field of the class and are not modelled.
\<close>

datatype callback = BeatTimeout | TempoTimeout

record timer =
  timer_id :: nat
  timer_delay :: "real option"
  timer_callback :: callback

record MetronomeSound =
  isPlaying :: bool
  timeoutId :: "nat option"
  intervalId :: "nat option"
  bpm :: real
  beatCount :: int
  currentBeat :: int
  timers :: "timer list"
  nextTimerId :: nat
  played :: "(int \<times> int \<times> bool) list"

definition MetronomeSound0 :: MetronomeSound where
  \<comment> \<open>The constructor.\<close>
  "MetronomeSound0 = \<lparr>isPlaying = False, timeoutId = None, intervalId = None, bpm = 120,
     beatCount = 0, currentBeat = 0, timers = [], nextTimerId = 1, played = []\<rparr>"

definition interval_of :: "real \<Rightarrow> real option" where
  \<comment> \<open>\<open>60000 / bpm\<close>; \<open>None\<close> is the infinity of a division by zero.\<close>
  "interval_of b = (if b = 0 then None else Some (60000 / b))"

definition setTimeout :: "callback \<Rightarrow> real option \<Rightarrow> MetronomeSound \<Rightarrow> nat \<times> MetronomeSound" where
  "setTimeout cb delay s =
     (nextTimerId s,
      s\<lparr>timers := timers s @ [\<lparr>timer_id = nextTimerId s, timer_delay = delay, timer_callback = cb\<rparr>],
        nextTimerId := nextTimerId s + 1\<rparr>)"

definition clearTimeout :: "nat \<Rightarrow> MetronomeSound \<Rightarrow> MetronomeSound" where
  "clearTimeout i s = s\<lparr>timers := filter (\<lambda>t. timer_id t \<noteq> i) (timers s)\<rparr>"

definition playBeat :: "MetronomeSound \<Rightarrow> MetronomeSound" where
  "playBeat s =
     (let bc = beatCount s + 1;
          beatInMeasure = js_rem bc 4;
          isDownbeat = (beatInMeasure = 0)
      in s\<lparr>beatCount := bc, currentBeat := beatInMeasure,
           played := played s @ [(bc, beatInMeasure, isDownbeat)]\<rparr>)"

definition scheduleNextBeat :: "MetronomeSound \<Rightarrow> MetronomeSound" where
  "scheduleNextBeat s =
     (if \<not> isPlaying s then s
      else (let interval = interval_of (bpm s);
                (i, s1) = setTimeout BeatTimeout interval s
            in s1\<lparr>timeoutId := Some i\<rparr>))"

definition start :: "MetronomeSound \<Rightarrow> MetronomeSound" where
  "start s =
     (if isPlaying s then s
      else scheduleNextBeat (playBeat (s\<lparr>isPlaying := True, beatCount := - 1, currentBeat := 0\<rparr>)))"

text \<open>
  A field of type \<open>number | null\<close> is truthy when it holds a number other than 0.
\<close>

definition stop :: "MetronomeSound \<Rightarrow> MetronomeSound" where
  "stop s =
     (let s1 = s\<lparr>isPlaying := False\<rparr>;
          s2 = (case timeoutId s1 of
                  Some i \<Rightarrow> if i \<noteq> 0 then (clearTimeout i s1)\<lparr>timeoutId := None\<rparr> else s1
                | None \<Rightarrow> s1)
      in (case intervalId s2 of
            Some i \<Rightarrow> if i \<noteq> 0 then (clearTimeout i s2)\<lparr>intervalId := None\<rparr> else s2
          | None \<Rightarrow> s2))"

definition setBPM :: "real \<Rightarrow> MetronomeSound \<Rightarrow> MetronomeSound" where
  "setBPM newBPM s =
     (let s1 = s\<lparr>bpm := min (max newBPM 40) 300\<rparr>
      in case timeoutId s1 of
           Some i \<Rightarrow>
             if isPlaying s1 \<and> i \<noteq> 0 then
               (let s2 = clearTimeout i s1;
                    interval = interval_of (bpm s2);
                    (j, s3) = setTimeout TempoTimeout interval s2
                in s3\<lparr>timeoutId := Some j\<rparr>)
             else s1
         | None \<Rightarrow> s1)"

definition run_callback :: "callback \<Rightarrow> MetronomeSound \<Rightarrow> MetronomeSound" where
  "run_callback cb s =
     (case cb of
        BeatTimeout \<Rightarrow>
          if \<not> isPlaying s then s else scheduleNextBeat (playBeat s)
      | TempoTimeout \<Rightarrow>
          if \<not> isPlaying s then s
          else scheduleNextBeat (playBeat (s\<lparr>currentBeat := js_rem (currentBeat s + 1) 4\<rparr>)))"

definition fire :: "nat \<Rightarrow> MetronomeSound \<Rightarrow> MetronomeSound" where
  \<comment> \<open>The browser fires the pending timer \<open>i\<close>; nothing happens when \<open>i\<close> is not pending.\<close>
  "fire i s =
     (case find (\<lambda>t. timer_id t = i) (timers s) of
        None \<Rightarrow> s
      | Some t \<Rightarrow> run_callback (timer_callback t) (clearTimeout i s))"

definition tick :: "MetronomeSound \<Rightarrow> MetronomeSound" where
  \<comment> \<open>The browser fires the oldest pending timer (an engine never has two pending).\<close>
  "tick s = (case timers s of [] \<Rightarrow> s | t # _ \<Rightarrow> fire (timer_id t) s)"

definition beat_entry :: "int \<Rightarrow> int \<times> int \<times> bool" where
  \<comment> \<open>What \<open>playBeat\<close> records when it raises \<open>beatCount\<close> to \<open>k \<ge> 0\<close>.\<close>
  "beat_entry k = (k, k mod 4, k mod 4 = 0)"

text \<open>
  What can happen to an engine: the calls of its methods, the write
  \<open>metronomeRef.current.beatCount = -1\<close> of \<open>togglePlay\<close>, and the firing of a timer.
\<close>

datatype call = Start | Stop | SetBPM real | ResetBeatCount | Fire nat | Tick

fun exec :: "call \<Rightarrow> MetronomeSound \<Rightarrow> MetronomeSound" where
  "exec Start s = start s"
| "exec Stop s = stop s"
| "exec (SetBPM b) s = setBPM b s"
| "exec ResetBeatCount s = s\<lparr>beatCount := - 1\<rparr>"
| "exec (Fire i) s = fire i s"
| "exec Tick s = tick s"

fun run :: "call list \<Rightarrow> MetronomeSound \<Rightarrow> MetronomeSound" where
  "run [] s = s"
| "run (c # cs) s = run cs (exec c s)"

definition engine_inv :: "MetronomeSound \<Rightarrow> bool" where
  \<comment> \<open>What holds of every engine reached from the constructor.\<close>
  "engine_inv s =
     (intervalId s = None \<and> 0 < nextTimerId s \<and> 40 \<le> bpm s \<and> bpm s \<le> 300
      \<and> - 1 \<le> beatCount s
      \<and> (if isPlaying s
         then (case timers s of
                 [t] \<Rightarrow> timeoutId s = Some (timer_id t) \<and> 0 < timer_id t
                          \<and> timer_id t < nextTimerId s
               | _ \<Rightarrow> False)
         else timers s = [] \<and> timeoutId s = None))"

section \<open>MetronomeControls: play button and tap tempo\<close>

record Controls =
  ui_bpm :: real
  ui_isPlaying :: bool
  tapTimes :: "int list"
  metronome :: MetronomeSound

definition togglePlay :: "Controls \<Rightarrow> Controls" where
  "togglePlay c =
     (if ui_isPlaying c
      then c\<lparr>metronome := stop (metronome c), ui_isPlaying := False\<rparr>
      else c\<lparr>metronome := start (setBPM (ui_bpm c) ((metronome c)\<lparr>beatCount := - 1\<rparr>)),
             ui_isPlaying := True\<rparr>)"

definition slice_last :: "nat \<Rightarrow> 'a list \<Rightarrow> 'a list" where
  \<comment> \<open>\<open>xs.slice(-n)\<close>: the last \<open>n\<close> elements, all of them when there are fewer.\<close>
  "slice_last n xs = drop (length xs - n) xs"

fun intervals :: "int list \<Rightarrow> int list" where
  \<comment> \<open>The loop \<open>for (i = 1; i < length; i++) push(t[i] - t[i - 1])\<close>.\<close>
  "intervals (a # b # ts) = (b - a) # intervals (b # ts)"
| "intervals ts = []"

text \<open>
  \<open>Date.now()\<close> is an integer below \<open>2^53\<close>, so the differences of the taps and their
  sum are exact; \<open>averageInterval\<close> and the quotient \<open>60000 / averageInterval\<close> are
  doubles, and \<open>Math.round\<close> of a double is exact.
\<close>

definition calculatedBpm :: "int list \<Rightarrow> int option" where
  \<comment> \<open>\<open>Math.round(60000 / averageInterval)\<close>; \<open>None\<close> is \<open>NaN\<close> or an infinity.\<close>
  "calculatedBpm newTapTimes =
     (let ivs = intervals newTapTimes;
          total = fold (\<lambda>b a. a + b) ivs 0
      in case js_div (real_of_int total) (real (length ivs)) of
           None \<Rightarrow> None
         | Some averageInterval \<Rightarrow>
             (case js_div 60000 averageInterval of
                None \<Rightarrow> None
              | Some q \<Rightarrow> Some (Math_round q)))"

definition tap_estimate :: "int list \<Rightarrow> int option" where
  \<comment> \<open>The tempo that \<open>handleTapTempo\<close> applies for the new tap history, if any.\<close>
  "tap_estimate newTapTimes =
     (if length newTapTimes > 1 then
        (case calculatedBpm newTapTimes of
           Some b \<Rightarrow> if b \<ge> 40 \<and> b \<le> 300 then Some b else None
         | None \<Rightarrow> None)
      else None)"

text \<open>
  Every tap arms a timer of 2000 ms whose callback drops from the history the taps that
  are 2000 ms old or older at the time it runs. The pending clean-up timers are kept
  with the state of the controls, each by the time from which it may fire; timers of
  equal delay fire in the order in which they were armed. When a due timer runs is left
  to the browser: a run of the program is a list of taps and timer runs in the order in
  which they happen, each with its time of \<open>Date.now()\<close>.
\<close>

record TapControls = Controls +
  cleanupTimers :: "int list"

definition TapControls0 :: TapControls where
  "TapControls0 = \<lparr>ui_bpm = 120, ui_isPlaying = False, tapTimes = [],
     metronome = MetronomeSound0, cleanupTimers = []\<rparr>"

definition handleTapTempo :: "int \<Rightarrow> TapControls \<Rightarrow> TapControls" where
  \<comment> \<open>\<open>now\<close> is \<open>Date.now()\<close>.\<close>
  "handleTapTempo now c =
     (let newTapTimes = slice_last 4 (tapTimes c @ [now]);
          c1 = c\<lparr>tapTimes := newTapTimes\<rparr>;
          c2 = (case tap_estimate newTapTimes of
                  Some b \<Rightarrow> c1\<lparr>ui_bpm := of_int b, metronome := setBPM (of_int b) (metronome c1)\<rparr>
                | None \<Rightarrow> c1)
      in c2\<lparr>cleanupTimers := cleanupTimers c2 @ [now + 2000]\<rparr>)"

definition clearOldTaps :: "int \<Rightarrow> TapControls \<Rightarrow> TapControls" where
  \<comment> \<open>The browser runs the oldest clean-up timer at the time \<open>now\<close> of \<open>Date.now()\<close>;
     nothing happens when no timer is pending or the oldest one is not yet due.\<close>
  "clearOldTaps now c =
     (case cleanupTimers c of
        [] \<Rightarrow> c
      | due # rest \<Rightarrow>
          if due \<le> now
          then c\<lparr>cleanupTimers := rest,
                 tapTimes := filter (\<lambda>time. now - time < 2000) (tapTimes c)\<rparr>
          else c)"

datatype tap_event = Tap int | Cleanup int

fun tap_exec :: "tap_event \<Rightarrow> TapControls \<Rightarrow> TapControls" where
  "tap_exec (Tap now) c = handleTapTempo now c"
| "tap_exec (Cleanup now) c = clearOldTaps now c"

fun run_taps :: "tap_event list \<Rightarrow> TapControls \<Rightarrow> TapControls" where
  "run_taps [] c = c"
| "run_taps (e # es) c = run_taps es (tap_exec e c)"

section \<open>MetronomeSound: the engine of the Metronome page\<close>

text \<open>
  The class of the standalone page keeps one repeating timer (\<open>setInterval\<close>), which
  stays pending when it fires. Its \<open>playBeat\<close> is recorded in \<open>played_legacy\<close> with
  the beat it clicks and the downbeat flag of the click.
\<close>

record interval_timer =
  itimer_id :: nat
  itimer_delay :: "real option"

record LegacyMetronome =
  isPlaying_legacy :: bool
  intervalId_legacy :: "nat option"
  bpm_legacy :: real
  beatCount_legacy :: int
  currentBeat_legacy :: int
  timers_legacy :: "interval_timer list"
  nextTimerId_legacy :: nat
  played_legacy :: "(int \<times> bool) list"

definition LegacyMetronome0 :: LegacyMetronome where
  "LegacyMetronome0 = \<lparr>isPlaying_legacy = False, intervalId_legacy = None, bpm_legacy = 120,
     beatCount_legacy = 0, currentBeat_legacy = 0, timers_legacy = [],
     nextTimerId_legacy = 1, played_legacy = []\<rparr>"

definition setInterval_legacy :: "real option \<Rightarrow> LegacyMetronome \<Rightarrow> nat \<times> LegacyMetronome" where
  "setInterval_legacy delay s =
     (nextTimerId_legacy s,
      s\<lparr>timers_legacy := timers_legacy s @ [\<lparr>itimer_id = nextTimerId_legacy s, itimer_delay = delay\<rparr>],
        nextTimerId_legacy := nextTimerId_legacy s + 1\<rparr>)"

definition clearInterval_legacy :: "nat \<Rightarrow> LegacyMetronome \<Rightarrow> LegacyMetronome" where
  "clearInterval_legacy i s = s\<lparr>timers_legacy := filter (\<lambda>t. itimer_id t \<noteq> i) (timers_legacy s)\<rparr>"

definition playBeat_legacy :: "LegacyMetronome \<Rightarrow> LegacyMetronome" where
  "playBeat_legacy s =
     (let isDownbeat = (currentBeat_legacy s = 0)
      in s\<lparr>played_legacy := played_legacy s @ [(currentBeat_legacy s, isDownbeat)],
           currentBeat_legacy := js_rem (currentBeat_legacy s + 1) 4\<rparr>)"

definition start_legacy :: "LegacyMetronome \<Rightarrow> LegacyMetronome" where
  "start_legacy s =
     (if isPlaying_legacy s then s
      else (let s1 = s\<lparr>isPlaying_legacy := True, beatCount_legacy := 0\<rparr>;
                interval = interval_of (bpm_legacy s1);
                s2 = playBeat_legacy s1;
                (i, s3) = setInterval_legacy interval s2
            in s3\<lparr>intervalId_legacy := Some i\<rparr>))"

definition stop_legacy :: "LegacyMetronome \<Rightarrow> LegacyMetronome" where
  "stop_legacy s =
     (let s1 = s\<lparr>isPlaying_legacy := False\<rparr>
      in case intervalId_legacy s1 of
           Some i \<Rightarrow> if i \<noteq> 0 then (clearInterval_legacy i s1)\<lparr>intervalId_legacy := None\<rparr> else s1
         | None \<Rightarrow> s1)"

definition setBPM_legacy :: "real \<Rightarrow> LegacyMetronome \<Rightarrow> LegacyMetronome" where
  "setBPM_legacy newBPM s =
     (let s1 = s\<lparr>bpm_legacy := newBPM\<rparr>
      in case intervalId_legacy s1 of
           Some i \<Rightarrow>
             if isPlaying_legacy s1 \<and> i \<noteq> 0 then
               (let s2 = clearInterval_legacy i s1;
                    interval = interval_of (bpm_legacy s2);
                    (j, s3) = setInterval_legacy interval s2
                in s3\<lparr>intervalId_legacy := Some j\<rparr>)
             else s1
         | None \<Rightarrow> s1)"

definition fire_legacy :: "nat \<Rightarrow> LegacyMetronome \<Rightarrow> LegacyMetronome" where
  \<comment> \<open>The browser fires the repeating timer \<open>i\<close>, which stays pending.\<close>
  "fire_legacy i s =
     (case find (\<lambda>t. itimer_id t = i) (timers_legacy s) of
        None \<Rightarrow> s
      | Some t \<Rightarrow> playBeat_legacy s)"

definition tick_legacy :: "LegacyMetronome \<Rightarrow> LegacyMetronome" where
  "tick_legacy s = (case timers_legacy s of [] \<Rightarrow> s | t # _ \<Rightarrow> fire_legacy (itimer_id t) s)"

fun exec_legacy :: "call \<Rightarrow> LegacyMetronome \<Rightarrow> LegacyMetronome" where
  "exec_legacy Start s = start_legacy s"
| "exec_legacy Stop s = stop_legacy s"
| "exec_legacy (SetBPM b) s = setBPM_legacy b s"
| "exec_legacy ResetBeatCount s = s\<lparr>beatCount_legacy := - 1\<rparr>"
| "exec_legacy (Fire i) s = fire_legacy i s"
| "exec_legacy Tick s = tick_legacy s"

fun run_legacy :: "call list \<Rightarrow> LegacyMetronome \<Rightarrow> LegacyMetronome" where
  "run_legacy [] s = s"
| "run_legacy (c # cs) s = run_legacy cs (exec_legacy c s)"

fun firing :: "call \<Rightarrow> bool" where
  \<comment> \<open>The calls that are timer firings of the browser.\<close>
  "firing Tick = True"
| "firing (Fire i) = True"
| "firing c = False"

fun session_call :: "call \<Rightarrow> bool" where
  \<comment> \<open>A timer firing, or a tempo change inside the range of the controls.\<close>
  "session_call Tick = True"
| "session_call (SetBPM b) = (40 \<le> b \<and> b \<le> 300)"
| "session_call c = False"

section \<open>The two engines side by side\<close>

definition engines_agree :: "MetronomeSound \<Rightarrow> LegacyMetronome \<Rightarrow> bool" where
  \<comment> \<open>What the two running engines have in common during one session.\<close>
  "engines_agree n l =
     (isPlaying n \<and> isPlaying_legacy l
      \<and> bpm n = bpm_legacy l
      \<and> 0 \<le> beatCount n
      \<and> beatCount_legacy l = 0
      \<and> currentBeat n = beatCount n mod 4
      \<and> currentBeat_legacy l = (beatCount n + 1) mod 4
      \<and> map timer_delay (timers n) = [Some (60000 / bpm n)]
      \<and> (case timers_legacy l of
            [t] \<Rightarrow> intervalId_legacy l = Some (itimer_id t) \<and> 0 < itimer_id t
                    \<and> itimer_delay t = Some (60000 / bpm_legacy l)
          | _ \<Rightarrow> False)
      \<and> 0 < nextTimerId_legacy l
      \<and> map (\<lambda>(k, b, d). (b, d)) (played n) = played_legacy l)"

section \<open>The tuning tracker matches the nearest reference\<close>

lemma powr_24_upper: "(2::real) powr (1 / 24) \<le> 103 / 100"
proof (rule ccontr)
  assume "\<not> (2::real) powr (1 / 24) \<le> 103 / 100"
  then have "(103 / 100 :: real) < 2 powr (1 / 24)" by simp
  then have "(103 / 100 :: real) ^ 24 < (2 powr (1 / 24)) ^ 24"
    by (intro power_strict_mono) simp_all
  moreover have "((2::real) powr (1 / 24)) ^ 24 = 2"
    by (simp add: powr_power)
  moreover have "(2::real) < (103 / 100) ^ 24" by (simp add: power_divide)
  ultimately show False by simp
qed

lemma powr_24_lower: "97 / 100 \<le> (2::real) powr (- (1 / 24))"
proof (rule ccontr)
  assume "\<not> 97 / 100 \<le> (2::real) powr (- (1 / 24))"
  then have lt: "(2::real) powr (- (1 / 24)) < 97 / 100" by simp
  have "((2::real) powr (- (1 / 24))) ^ 24 < (97 / 100) ^ 24"
    using lt by (intro power_strict_mono) simp_all
  moreover have "((2::real) powr (- (1 / 24))) ^ 24 = 1 / 2"
    by (simp add: powr_minus_divide power_divide powr_power)
  moreover have "(97 / 100 :: real) ^ 24 < 1 / 2" by (simp add: power_divide)
  ultimately show False by simp
qed

lemma cents_factor_bounds:
  assumes "\<bar>d\<bar> \<le> (50::real)"
  shows "97 / 100 \<le> 2 powr (d / 1200)" and "2 powr (d / 1200) \<le> 103 / 100"
proof -
  have "- (1 / 24) \<le> d / 1200" "d / 1200 \<le> 1 / 24" using assms by auto
  then have "(2::real) powr (- (1 / 24)) \<le> 2 powr (d / 1200)" "(2::real) powr (d / 1200) \<le> 2 powr (1 / 24)"
    by (simp_all only: powr_le_cancel_iff one_less_numeral_iff semiring_norm)
  then show "97 / 100 \<le> 2 powr (d / 1200)" and "2 powr (d / 1200) \<le> 103 / 100"
    using powr_24_upper powr_24_lower by linarith+
qed

lemma closest_near:
  "R \<in> set guitarStrings0 \<Longrightarrow> 97 / 100 * freq R \<le> f \<Longrightarrow> f \<le> 103 / 100 * freq R
    \<Longrightarrow> closest_string guitarStrings0 f = R"
  by (auto simp: closest_string_def guitarStrings0_def Let_def abs_if)

lemma nearest_spec_drop_head:
  assumes "hz_diff f s < hz_diff f c"
  shows "nearest_spec (c # s # ss) f = nearest_spec (s # ss) f"
proof -
  have m: "Min (set (map (hz_diff f) (c # s # ss))) = Min (set (map (hz_diff f) (s # ss)))"
    using assms by (simp add: min_def)
  have "Min (set (map (hz_diff f) (s # ss))) \<le> hz_diff f s" by simp
  then have "hz_diff f c \<noteq> Min (set (map (hz_diff f) (s # ss)))" using assms by linarith
  then show ?thesis unfolding nearest_spec_def m Let_def by simp
qed

lemma nearest_spec_drop_second:
  assumes "\<not> hz_diff f s < hz_diff f c"
  shows "nearest_spec (c # s # ss) f = nearest_spec (c # ss) f"
proof -
  have m: "Min (set (map (hz_diff f) (c # s # ss))) = Min (set (map (hz_diff f) (c # ss)))"
  proof -
    let ?A = "set (map (hz_diff f) (c # ss))"
    have fin: "finite ?A" and ne: "?A \<noteq> {}" by simp_all
    have "Min ?A \<le> hz_diff f c" by simp
    then have "Min ?A \<le> hz_diff f s" using assms by linarith
    then have "min (hz_diff f s) (Min ?A) = Min ?A" by (rule min_absorb2)
    moreover have "Min (insert (hz_diff f s) ?A) = min (hz_diff f s) (Min ?A)"
      by (rule Min_insert [OF fin ne])
    moreover have "set (map (hz_diff f) (c # s # ss)) = insert (hz_diff f s) ?A" by auto
    ultimately show ?thesis by (simp only:)
  qed
  let ?m = "Min (set (map (hz_diff f) (c # ss)))"
  have le: "?m \<le> hz_diff f c" by simp
  show ?thesis
  proof (cases "hz_diff f c = ?m")
    case True
    then show ?thesis unfolding nearest_spec_def m Let_def by simp
  next
    case False
    then have "?m < hz_diff f s" using le assms by linarith
    then show ?thesis using False unfolding nearest_spec_def m Let_def by simp
  qed
qed

lemma closest_scan_nearest:
  "closest_scan f c (hz_diff f c) ss = nearest_spec (c # ss) f"
proof (induction ss arbitrary: c)
  case Nil
  show ?case by (simp add: nearest_spec_def)
next
  case (Cons s ss)
  show ?case
  proof (cases "hz_diff f s < hz_diff f c")
    case True
    have "closest_scan f c (hz_diff f c) (s # ss) = closest_scan f s (hz_diff f s) ss"
      using True by (simp add: hz_diff_def)
    then show ?thesis using Cons.IH [of s] nearest_spec_drop_head [OF True] by simp
  next
    case False
    have "closest_scan f c (hz_diff f c) (s # ss) = closest_scan f c (hz_diff f c) ss"
      using False by (simp add: hz_diff_def)
    then show ?thesis using Cons.IH [of c] nearest_spec_drop_second [OF False] by simp
  qed
qed

lemma closest_string_nearest:
  assumes "gs \<noteq> []"
  shows "closest_string gs f = nearest_spec gs f"
proof -
  obtain g rest where gs: "gs = g # rest" using assms by (cases gs) auto
  have "closest_string gs f = closest_scan f g (hz_diff f g) rest"
    by (simp add: gs closest_string_def hz_diff_def)
  then show ?thesis by (simp add: closest_scan_nearest gs)
qed

lemma centsValue_exact:
  assumes "0 < freq R"
  shows "centsValue (freq R * 2 powr (d / 1200)) R = Some (Math_round d)"
proof -
  have "freq R * 2 powr (d / 1200) / freq R = 2 powr (d / 1200)" using assms by simp
  moreover have "(0::real) < 2 powr (d / 1200)" by simp
  moreover have "log 2 (2 powr (d / 1200)) = d / 1200" by simp
  ultimately show ?thesis using assms by (simp add: centsValue_def Math_log2_def)
qed

lemma Math_round_50: "\<bar>d\<bar> \<le> 50 \<Longrightarrow> \<bar>Math_round d\<bar> \<le> 50"
  unfolding Math_round_def by linarith

lemma freq_pos: "R \<in> set guitarStrings0 \<Longrightarrow> 0 < freq R"
  by (auto simp: guitarStrings0_def)

lemma update_published:
  assumes "centsValue f (closest_string guitarStrings0 f) = Some c" and "\<bar>c\<bar> \<le> 50"
  shows "currentNote (updateTuningInfo f now s) = name (closest_string guitarStrings0 f)"
    and "cents (updateTuningInfo f now s) = c"
  using assms by (simp_all add: updateTuningInfo_def Let_def)

text \<open>
  Claim C1. For every reference pitch \<open>R\<close> of the six open strings and every offset
  \<open>d\<close> of at most 50 cents in absolute value, an update with the frequency
  \<open>freq R * 2 powr (d / 1200)\<close> matches \<open>R\<close>, which is the reference of least absolute
  difference in Hz with the first one winning a tie, and publishes the name of \<open>R\<close> and
  the cents \<open>Math.round(1200 * log2(f / freq R))\<close>, which is \<open>Math.round(d)\<close> up to
  one cent.
\<close>

theorem C1_update_matches_reference:
  assumes R: "R \<in> set guitarStrings0" and d: "\<bar>d\<bar> \<le> 50"
  shows "closest_string guitarStrings0 (freq R * 2 powr (d / 1200)) = R
       \<and> closest_string guitarStrings0 (freq R * 2 powr (d / 1200))
           = nearest_spec guitarStrings0 (freq R * 2 powr (d / 1200))
       \<and> currentNote (updateTuningInfo (freq R * 2 powr (d / 1200)) now s) = name R
       \<and> cents (updateTuningInfo (freq R * 2 powr (d / 1200)) now s)
           = Math_round (1200 * log 2 (freq R * 2 powr (d / 1200) / freq R))
       \<and> \<bar>cents (updateTuningInfo (freq R * 2 powr (d / 1200)) now s) - Math_round d\<bar> \<le> 1"
proof -
  let ?f = "freq R * 2 powr (d / 1200)"
  have pos: "0 < freq R" using R by (rule freq_pos)
  have lo: "97 / 100 * freq R \<le> ?f"
    using cents_factor_bounds(1) [OF d] pos by (simp add: mult.commute)
  have hi: "?f \<le> 103 / 100 * freq R"
    using cents_factor_bounds(2) [OF d] pos by (simp add: mult.commute)
  have cl: "closest_string guitarStrings0 ?f = R"
    using R lo hi by (rule closest_near)
  have ne: "guitarStrings0 \<noteq> []" by (simp add: guitarStrings0_def)
  have cv: "centsValue ?f (closest_string guitarStrings0 ?f) = Some (Math_round d)"
    unfolding cl using pos by (rule centsValue_exact)
  have b: "\<bar>Math_round d\<bar> \<le> 50" using d by (rule Math_round_50)
  have note_eq: "currentNote (updateTuningInfo ?f now s) = name R"
    using update_published(1) [OF cv b] cl by simp
  have cents_eq: "cents (updateTuningInfo ?f now s) = Math_round d"
    using update_published(2) [OF cv b] .
  have "?f / freq R = 2 powr (d / 1200)" using pos by simp
  then have lg: "1200 * log 2 (?f / freq R) = d" by simp
  show ?thesis
    using cl closest_string_nearest [OF ne, of ?f] note_eq cents_eq lg by simp
qed

theorem C1_update_matches_reference_witness:
  "guitarStrings0 ! 1 \<in> set guitarStrings0 \<and> \<bar>0::real\<bar> \<le> 50
   \<and> closest_string guitarStrings0 110 = guitarStrings0 ! 1
   \<and> currentNote (updateTuningInfo 110 0 Tuner0) = ''A''
   \<and> cents (updateTuningInfo 110 0 Tuner0) = 0"
proof -
  have m: "guitarStrings0 ! 1 \<in> set guitarStrings0" by (simp add: guitarStrings0_def)
  have d: "\<bar>0::real\<bar> \<le> 50" by simp
  have f: "freq (guitarStrings0 ! 1) * 2 powr (0 / 1200) = 110" by (simp add: guitarStrings0_def)
  have n: "name (guitarStrings0 ! 1) = ''A''" by (simp add: guitarStrings0_def)
  have fr: "freq (guitarStrings0 ! Suc 0) = 110" by (simp add: guitarStrings0_def)
  show ?thesis
    using C1_update_matches_reference [OF m d, of 0 Tuner0] m unfolding f n
    by (simp add: fr Math_round_def)
qed

section \<open>The frame loop: rejection and smoothing\<close>

lemma fold_add_sum: "fold (\<lambda>val sum. sum + val) h (a::real) = a + sum_list h"
  by (induction h arbitrary: a) simp_all

lemma avgPitch_mean: "avgPitch h = sum_list h / real (length h)"
  by (simp add: avgPitch_def fold_add_sum)

lemma push_history_window:
  "push_history h p = slice_last 5 (h @ [p])" if "length h \<le> 5"
proof (cases "length h = 5")
  case True
  then have "length (h @ [p]) - 5 = Suc 0" by simp
  moreover obtain a t where "h = a # t" using True by (cases h) auto
  ultimately show ?thesis
    using True by (simp add: push_history_def slice_last_def maxHistoryLength_def Let_def)
next
  case False
  then show ?thesis
    using that by (simp add: push_history_def slice_last_def maxHistoryLength_def Let_def)
qed

lemma push_history_length:
  "length h \<le> 5 \<Longrightarrow> length (push_history h p) \<le> 5 \<and> 0 < length (push_history h p)"
  by (cases h) (auto simp: push_history_def maxHistoryLength_def Let_def)

lemma detectPitch_history_bound:
  "length (pitchHistory d) \<le> 5 \<Longrightarrow> length (pitchHistory (detectPitch p c now d)) \<le> 5"
  using push_history_length [of "pitchHistory d" p]
  by (simp add: detectPitch_def Let_def)

lemma run_frames_history_bound:
  "length (pitchHistory d) \<le> 5 \<Longrightarrow> length (pitchHistory (run_frames fs d)) \<le> 5"
proof (induction fs arbitrary: d)
  case Nil
  then show ?case by simp
next
  case (Cons fr fs)
  obtain p c now where fr: "fr = (p, c, now)" by (cases fr) auto
  show ?case unfolding fr run_frames.simps
    by (rule Cons.IH) (rule detectPitch_history_bound [OF Cons.prems])
qed

lemma reachable_history_bound: "length (pitchHistory (run_frames fs Detector0)) \<le> 5"
  by (rule run_frames_history_bound) (simp add: Detector0_def)

lemma accepted_step:
  assumes b: "length (pitchHistory d) \<le> 5" and a: "frame_accepted p c"
  shows "pitchHistory (detectPitch p c now d) = slice_last 5 (pitchHistory d @ [p])"
    and "emitted_pitch p c d
           = Some (sum_list (slice_last 5 (pitchHistory d @ [p]))
                   / real (length (slice_last 5 (pitchHistory d @ [p]))))"
    and "tuner (detectPitch p c now d)
           = updateTuningInfo (sum_list (slice_last 5 (pitchHistory d @ [p]))
                   / real (length (slice_last 5 (pitchHistory d @ [p])))) now (tuner d)"
proof -
  have w: "push_history (pitchHistory d) p = slice_last 5 (pitchHistory d @ [p])"
    using b by (rule push_history_window)
  have pos: "0 < length (push_history (pitchHistory d) p)"
    using push_history_length [OF b] by simp
  show "pitchHistory (detectPitch p c now d) = slice_last 5 (pitchHistory d @ [p])"
    using a pos by (simp add: detectPitch_def Let_def w)
  show "emitted_pitch p c d
           = Some (sum_list (slice_last 5 (pitchHistory d @ [p]))
                   / real (length (slice_last 5 (pitchHistory d @ [p]))))"
    using a pos by (simp add: emitted_pitch_def Let_def avgPitch_mean w)
  show "tuner (detectPitch p c now d)
           = updateTuningInfo (sum_list (slice_last 5 (pitchHistory d @ [p]))
                   / real (length (slice_last 5 (pitchHistory d @ [p])))) now (tuner d)"
    using a pos by (simp add: detectPitch_def Let_def avgPitch_mean w)
qed

lemma rejected_step:
  assumes "\<not> frame_accepted p c"
  shows "detectPitch p c now d
           = \<lparr>pitchHistory = [], tuner = (tuner d)\<lparr>currentNote := [], cents := 0\<rparr>\<rparr>"
    and "emitted_pitch p c d = None"
  using assms by (simp_all add: detectPitch_def emitted_pitch_def)

lemma after_gap:
  assumes "pitchHistory d = []" and "frame_accepted p c"
  shows "emitted_pitch p c d = Some p"
  using assms
  by (simp add: emitted_pitch_def push_history_def maxHistoryLength_def avgPitch_def Let_def)




text \<open>
  Claim C8. In every state of the frame loop the history holds at most 5 frequencies.
  An accepted frame pushes its frequency, keeps the last 5, and hands the arithmetic
  mean of that window to the tuning tracker. A rejected frame empties the history and
  hands nothing on, and the first accepted frame after it yields its own frequency, so
  nothing from before the gap enters an average.
\<close>

theorem C8_smoother_window:
  assumes d: "d = run_frames fs Detector0"
  shows "length (pitchHistory d) \<le> 5
    \<and> (frame_accepted p c \<longrightarrow>
         pitchHistory (detectPitch p c now d) = slice_last 5 (pitchHistory d @ [p])
         \<and> emitted_pitch p c d
             = Some (sum_list (pitchHistory (detectPitch p c now d))
                     / real (length (pitchHistory (detectPitch p c now d))))
         \<and> tuner (detectPitch p c now d)
             = updateTuningInfo (sum_list (pitchHistory (detectPitch p c now d))
                     / real (length (pitchHistory (detectPitch p c now d)))) now (tuner d))
    \<and> (\<not> frame_accepted p c \<longrightarrow>
         pitchHistory (detectPitch p c now d) = []
         \<and> emitted_pitch p c d = None
         \<and> tuner (detectPitch p c now d) = (tuner d)\<lparr>currentNote := [], cents := 0\<rparr>
         \<and> (\<forall>p' c'. frame_accepted p' c' \<longrightarrow>
               emitted_pitch p' c' (detectPitch p c now d) = Some p'))"
proof -
  have b: "length (pitchHistory d) \<le> 5" unfolding d by (rule reachable_history_bound)
  have acc: "
         pitchHistory (detectPitch p c now d) = slice_last 5 (pitchHistory d @ [p])
         \<and> emitted_pitch p c d
             = Some (sum_list (pitchHistory (detectPitch p c now d))
                     / real (length (pitchHistory (detectPitch p c now d))))
         \<and> tuner (detectPitch p c now d)
             = updateTuningInfo (sum_list (pitchHistory (detectPitch p c now d))
                     / real (length (pitchHistory (detectPitch p c now d)))) now (tuner d)"
    if a: "frame_accepted p c"
    using accepted_step(1) [OF b a, of now] accepted_step(2) [OF b a]
      accepted_step(3) [OF b a, of now] by simp
  have rej: "pitchHistory (detectPitch p c now d) = []
         \<and> emitted_pitch p c d = None
         \<and> tuner (detectPitch p c now d) = (tuner d)\<lparr>currentNote := [], cents := 0\<rparr>
         \<and> (\<forall>p' c'. frame_accepted p' c' \<longrightarrow>
               emitted_pitch p' c' (detectPitch p c now d) = Some p')"
    if n: "\<not> frame_accepted p c"
  proof -
    have st: "detectPitch p c now d
           = \<lparr>pitchHistory = [], tuner = (tuner d)\<lparr>currentNote := [], cents := 0\<rparr>\<rparr>"
      using n by (rule rejected_step(1))
    have em: "emitted_pitch p c d = None" using n by (rule rejected_step(2))
    have "emitted_pitch p' c' (detectPitch p c now d) = Some p'" if "frame_accepted p' c'" for p' c'
      by (rule after_gap) (simp_all add: st that)
    then show ?thesis using st em by simp
  qed
  show ?thesis using b acc rej by blast
qed

theorem C8_smoother_window_witness:
  "length (pitchHistory (run_frames [(100, 9 / 10, 0), (104, 9 / 10, 16)] Detector0)) \<le> 5
   \<and> emitted_pitch 108 (9 / 10) (run_frames [(100, 9 / 10, 0), (104, 9 / 10, 16)] Detector0)
       = Some 104
   \<and> emitted_pitch 108 (1 / 2) (run_frames [(100, 9 / 10, 0), (104, 9 / 10, 16)] Detector0)
       = None
   \<and> emitted_pitch 200 (9 / 10)
       (detectPitch 108 (1 / 2) 32 (run_frames [(100, 9 / 10, 0), (104, 9 / 10, 16)] Detector0))
       = Some 200"
proof -
  let ?d = "run_frames [(100, 9 / 10, 0), (104, 9 / 10, 16)] Detector0"
  have a: "frame_accepted 108 (9 / 10)" "\<not> frame_accepted 108 (1 / 2)"
    "frame_accepted 200 (9 / 10)"
    by (simp_all add: frame_accepted_def)
  have h: "pitchHistory ?d = [100, 104]"
    by (simp add: Detector0_def detectPitch_def frame_accepted_def push_history_def
        maxHistoryLength_def Let_def)
  have w: "pitchHistory (detectPitch 108 (9 / 10) 32 ?d) = [100, 104, 108]"
    using a(1) by (simp only: detectPitch_def h if_True Let_def)
      (simp add: push_history_def maxHistoryLength_def)
  note acc = C8_smoother_window [OF refl, of "[(100, 9 / 10, 0), (104, 9 / 10, 16)]" 108 "9 / 10" 32]
  note rej = C8_smoother_window [OF refl, of "[(100, 9 / 10, 0), (104, 9 / 10, 16)]" 108 "1 / 2" 32]
  have 1: "length (pitchHistory ?d) \<le> 5" using acc by blast
  have 2: "emitted_pitch 108 (9 / 10) ?d = Some 104"
    using acc a(1) unfolding w by simp
  have 3: "emitted_pitch 108 (1 / 2) ?d = None" using rej a(2) by blast
  have 4: "emitted_pitch 200 (9 / 10) (detectPitch 108 (1 / 2) 32 ?d) = Some 200"
    using rej a(2) a(3) by blast
  show ?thesis using 1 2 3 4 by blast
qed

section \<open>Rounding to the nearest double\<close>

lemma floor_log2:
  assumes lo: "2 ^ k \<le> \<bar>x\<bar>" and hi: "\<bar>x\<bar> < 2 ^ Suc k"
  shows "\<lfloor>log 2 \<bar>x::real\<bar>\<rfloor> = int k"
proof (rule floor_unique)
  have "(0::real) < 2 ^ k" by simp
  then have pos: "0 < \<bar>x\<bar>" using lo by (rule less_le_trans)
  have "2 powr real k \<le> \<bar>x\<bar>" using lo by (simp add: powr_realpow)
  then have "real k \<le> log 2 \<bar>x\<bar>" using pos by (subst le_log_iff) simp_all
  then show "of_int (int k) \<le> log 2 \<bar>x\<bar>" by simp
  have "\<bar>x\<bar> < 2 powr real (Suc k)" using hi by (simp only: powr_realpow zero_less_numeral)
  then have "log 2 \<bar>x\<bar> < real (Suc k)" using pos by (subst log_less_iff) simp_all
  then show "log 2 \<bar>x\<bar> < of_int (int k) + 1" by simp
qed

lemma fl_eval:
  assumes lo: "2 ^ k \<le> \<bar>x\<bar>" and hi: "\<bar>x\<bar> < 2 ^ Suc k" and k: "k \<le> 52"
  shows "fl x = of_int (round_half_even (x * 2 ^ (52 - k))) / 2 ^ (52 - k)"
proof -
  have "(0::real) < 2 ^ k" by simp
  then have "0 < \<bar>x\<bar>" using lo by (rule less_le_trans)
  then have nz: "x \<noteq> 0" by simp
  have e: "\<lfloor>log 2 \<bar>x\<bar>\<rfloor> = int k" using lo hi by (rule floor_log2)
  have ra: "real_of_int (52 - int k) = real (52 - k)" using k by simp
  have a: "(2::real) powr of_int (52 - int k) = 2 ^ (52 - k)"
    unfolding ra by (rule powr_realpow) simp
  have rb: "real_of_int (int k - 52) = - real (52 - k)" using k by simp
  have "(2::real) powr - real (52 - k) = 1 / 2 powr real (52 - k)"
    by (rule powr_minus_divide)
  also have "(2::real) powr real (52 - k) = 2 ^ (52 - k)" by (rule powr_realpow) simp
  finally have b: "(2::real) powr of_int (int k - 52) = 1 / 2 ^ (52 - k)"
    unfolding rb .
  have "fl x = of_int (round_half_even (x * 2 powr of_int (52 - int k)))
      * 2 powr of_int (int k - 52)"
    using nz by (simp only: fl_def Let_def e if_False)
  then show ?thesis unfolding a b by simp
qed

lemma round_half_even_bounds: "real_of_int (round_half_even y) \<le> y + 1 / 2"
  "y - 1 / 2 \<le> real_of_int (round_half_even y)"
  unfolding round_half_even_def Let_def by (auto; linarith)+

lemma fl_zero_iff: "fl x = 0 \<longleftrightarrow> x = 0"
proof
  assume z: "fl x = 0"
  show "x = 0"
  proof (rule ccontr)
    assume nz: "x \<noteq> 0"
    let ?e = "\<lfloor>log 2 \<bar>x\<bar>\<rfloor>"
    let ?y = "x * 2 powr of_int (52 - ?e)"
    have pos: "0 < \<bar>x\<bar>" using nz by simp
    have "of_int ?e \<le> log 2 \<bar>x\<bar>" by simp
    then have "2 powr of_int ?e \<le> \<bar>x\<bar>" using pos by (subst (asm) le_log_iff) simp_all
    then have m: "2 powr of_int ?e * 2 powr of_int (52 - ?e) \<le> \<bar>x\<bar> * 2 powr of_int (52 - ?e)"
      by (intro mult_right_mono) simp_all
    have "(2::real) powr of_int ?e * 2 powr of_int (52 - ?e) = 2 powr 52"
      by (simp add: powr_add [symmetric])
    also have "(2::real) powr 52 = 2 ^ 52" using powr_realpow [of "2::real" 52] by simp
    finally have eq: "(2::real) powr of_int ?e * 2 powr of_int (52 - ?e) = 2 ^ 52" .
    have "2 ^ 52 \<le> \<bar>x\<bar> * 2 powr of_int (52 - ?e)" using m unfolding eq .
    moreover have "\<bar>?y\<bar> = \<bar>x\<bar> * 2 powr of_int (52 - ?e)" by (simp add: abs_mult)
    ultimately have big: "2 ^ 52 \<le> \<bar>?y\<bar>" by (simp only:)
    have one: "(1::real) \<le> 2 ^ 52" by simp
    have "real_of_int (round_half_even ?y) \<noteq> 0"
    proof (cases "0 \<le> ?y")
      case True
      then have "1 \<le> ?y" using big one by linarith
      then show ?thesis using round_half_even_bounds(2) [of ?y] by linarith
    next
      case False
      then have "?y \<le> - 1" using big one by linarith
      then show ?thesis using round_half_even_bounds(1) [of ?y] by linarith
    qed
    then have "round_half_even ?y \<noteq> 0" by simp
    then show False using z nz by (simp add: fl_def Let_def)
  qed
next
  assume "x = 0"
  then show "fl x = 0" by (simp add: fl_def)
qed

lemma fl_500: "fl 500 = 500"
  by (subst fl_eval [of 8]) (simp_all add: round_half_even_def)

lemma fl_120: "fl 120 = 120"
  by (subst fl_eval [of 6]) (simp_all add: round_half_even_def)

lemma fl_171: "fl 171 = 171"
  by (subst fl_eval [of 7]) (simp_all add: round_half_even_def)

lemma fl_1500: "fl 1500 = 1500"
  by (subst fl_eval [of 10]) (simp_all add: round_half_even_def)

lemma fl_40: "fl 40 = 40"
  by (subst fl_eval [of 5]) (simp_all add: round_half_even_def)

lemma round_171: "Math_round (fl (60000 / 171)) = 351"
  by (subst fl_eval [of 8]) (simp_all add: round_half_even_def Math_round_def)

lemma fl_1600_3: "fl (1600 / 3) = 4691249611844267 / 2 ^ 43"
  by (subst fl_eval [of 9]) (simp_all add: round_half_even_def)

lemma round_1600_3: "Math_round (fl (60000 / (4691249611844267 / 2 ^ 43))) = 112"
  by (subst fl_eval [of 6]) (simp_all add: round_half_even_def Math_round_def)

lemma round_171n: "Math_round (fl (20000 / 57)) = 351"
  using round_171 by simp

lemma round_1600_3n:
  "Math_round (fl (527765581332480000 / 4691249611844267)) = 112"
  using round_1600_3 by simp

section \<open>Tap tempo\<close>

lemma fold_add_int: "fold (\<lambda>b a. a + b) xs (a::int) = a + sum_list xs"
  by (induction xs arbitrary: a) simp_all

lemma intervals_length: "length (intervals ts) = length ts - 1"
  by (induction ts rule: intervals.induct) simp_all

lemma intervals_telescope: "ts \<noteq> [] \<Longrightarrow> sum_list (intervals ts) = last ts - hd ts"
  by (induction ts rule: intervals.induct) simp_all

lemma slice_last_length: "length (slice_last n xs) = min n (length xs)"
  by (simp add: slice_last_def)

lemma slice_last_snoc: "0 < n \<Longrightarrow> last (slice_last n (xs @ [x])) = x"
  by (simp add: slice_last_def)

lemma slice_last_exact: "length ys = n \<Longrightarrow> slice_last n (xs @ ys) = ys"
  by (simp add: slice_last_def)

lemma slice_last_suffix:
  assumes "length ys \<le> n"
  shows "\<exists>h. slice_last n (xs @ ys) = h @ ys"
proof -
  have "length (xs @ ys) - n \<le> length xs" using assms by simp
  then have "drop (length (xs @ ys) - n) (xs @ ys) = drop (length (xs @ ys) - n) xs @ ys"
    by simp
  then show ?thesis unfolding slice_last_def by blast
qed

lemma slice_last_short: "length xs \<le> n \<Longrightarrow> slice_last n xs = xs"
  by (simp add: slice_last_def)

lemma calculatedBpm_mean:
  assumes "2 \<le> length ts"
  shows "calculatedBpm ts =
     (if last ts = hd ts then None
      else Some (Math_round
             (fl (60000 / fl (real_of_int (last ts - hd ts) / real (length ts - 1))))))"
proof -
  let ?avg = "fl (real_of_int (last ts - hd ts) / real (length ts - 1))"
  have ne: "ts \<noteq> []" using assms by auto
  have n: "real (length ts - 1) \<noteq> 0" using assms by simp
  have t: "fold (\<lambda>b a. a + b) (intervals ts) 0 = last ts - hd ts"
    by (simp add: fold_add_int intervals_telescope [OF ne])
  have c: "calculatedBpm ts =
      (case js_div (real_of_int (last ts - hd ts)) (real (length ts - 1)) of
         None \<Rightarrow> None
       | Some averageInterval \<Rightarrow>
           (case js_div 60000 averageInterval of
              None \<Rightarrow> None
            | Some q \<Rightarrow> Some (Math_round q)))"
    by (simp only: calculatedBpm_def Let_def t intervals_length)
  have d: "js_div (real_of_int (last ts - hd ts)) (real (length ts - 1)) = Some ?avg"
    using n by (simp only: js_div_def if_False)
  have "real_of_int (last ts - hd ts) / real (length ts - 1) = 0 \<longleftrightarrow> last ts = hd ts"
    using n by simp
  then have z: "?avg = 0 \<longleftrightarrow> last ts = hd ts" by (simp only: fl_zero_iff)
  have e: "js_div 60000 ?avg = (if last ts = hd ts then None else Some (fl (60000 / ?avg)))"
    by (simp only: js_div_def z)
  show ?thesis by (simp only: c d e option.case) simp
qed

lemma setBPM_bpm: "bpm (setBPM b m) = min (max b 40) 300"
  by (simp add: setBPM_def setTimeout_def clearTimeout_def Let_def split: option.splits)

lemma handleTapTempo_history:
  "tapTimes (handleTapTempo now c) = slice_last 4 (tapTimes c @ [now])"
  by (simp add: handleTapTempo_def Let_def split: option.splits)

lemma handleTapTempo_timers:
  "cleanupTimers (handleTapTempo now c) = cleanupTimers c @ [now + 2000]"
  by (simp add: handleTapTempo_def Let_def split: option.splits)

lemma handleTapTempo_applied:
  assumes "tap_estimate (slice_last 4 (tapTimes c @ [now])) = Some b"
  shows "ui_bpm (handleTapTempo now c) = of_int b"
    and "bpm (metronome (handleTapTempo now c)) = of_int b"
proof -
  have r: "40 \<le> b \<and> b \<le> 300"
    using assms by (simp add: tap_estimate_def split: if_splits option.splits)
  show "ui_bpm (handleTapTempo now c) = of_int b"
    using assms by (simp add: handleTapTempo_def Let_def)
  have "bpm (metronome (handleTapTempo now c)) = min (max (of_int b) 40) 300"
    using assms by (simp add: handleTapTempo_def Let_def setBPM_bpm)
  also have "\<dots> = of_int b" using r by simp
  finally show "bpm (metronome (handleTapTempo now c)) = of_int b" .
qed

lemma handleTapTempo_not_applied:
  assumes "tap_estimate (slice_last 4 (tapTimes c @ [now])) = None"
  shows "ui_bpm (handleTapTempo now c) = ui_bpm c"
    and "metronome (handleTapTempo now c) = metronome c"
  using assms by (simp_all add: handleTapTempo_def Let_def)

lemma clearOldTaps_cases:
  "clearOldTaps f c = c
   \<or> (\<exists>due rest. cleanupTimers c = due # rest \<and> due \<le> f
        \<and> clearOldTaps f c
            = c\<lparr>cleanupTimers := rest, tapTimes := filter (\<lambda>time. f - time < 2000) (tapTimes c)\<rparr>)"
  by (auto simp: clearOldTaps_def split: list.splits)

lemma clearOldTaps_fired:
  assumes "cleanupTimers c = due # rest" and "due \<le> f"
  shows "tapTimes (clearOldTaps f c) = filter (\<lambda>time. f - time < 2000) (tapTimes c)"
    and "cleanupTimers (clearOldTaps f c) = rest"
  using assms by (simp_all add: clearOldTaps_def)

lemma clearOldTaps_tempo:
  "ui_bpm (clearOldTaps f c) = ui_bpm c" "metronome (clearOldTaps f c) = metronome c"
  using clearOldTaps_cases [of f c] by auto

lemma clearOldTaps_suffix:
  assumes "\<exists>h. tapTimes c = h @ xs" and "\<forall>x \<in> set xs. f - x < 2000"
  shows "\<exists>h. tapTimes (clearOldTaps f c) = h @ xs"
proof -
  obtain h where h: "tapTimes c = h @ xs" using assms(1) by blast
  have "filter (\<lambda>time. f - time < 2000) (h @ xs) = filter (\<lambda>time. f - time < 2000) h @ xs"
    using assms(2) by simp
  then show ?thesis using clearOldTaps_cases [of f c] h by auto
qed

lemma estimate_500: "tap_estimate [t, t + 500, t + 1000, t + 1500] = Some 120"
  by (simp add: tap_estimate_def calculatedBpm_def js_div_def Let_def fl_500 fl_120
      Math_round_def)

lemma estimate_171:
  "tap_estimate [t, t + 171] = None"
  "tap_estimate [t, t + 171, t + 342] = None"
  "tap_estimate [t, t + 171, t + 342, t + 513] = None"
  by (simp_all add: tap_estimate_def calculatedBpm_def js_div_def Let_def fl_171 round_171n)

lemma estimate_tie: "tap_estimate [0, 500, 1000, 1600] = Some 112"
  by (simp add: tap_estimate_def calculatedBpm_def js_div_def Let_def fl_1600_3 round_1600_3n)

lemma exact_tie:
  "Math_round (60000 / (real_of_int (sum_list (intervals [0, 500, 1000, 1600]))
      / real (length (intervals [0, 500, 1000, 1600])))) = 113"
  by (simp add: Math_round_def)

lemma estimate_1500: "tap_estimate [1000, 2500] = Some 40"
  by (simp add: tap_estimate_def calculatedBpm_def js_div_def Let_def fl_1500 fl_40
      Math_round_def)

lemma fl_1000: "fl 1000 = 1000"
  by (subst fl_eval [of 9]) (simp_all add: round_half_even_def)

lemma fl_60: "fl 60 = 60"
  by (subst fl_eval [of 5]) (simp_all add: round_half_even_def)

lemma estimates_concrete:
  "tap_estimate [0] = None"
  "tap_estimate [0, 500] = Some 120"
  "tap_estimate [0, 500, 1000] = Some 120"
  "tap_estimate [0, 1000] = Some 60"
  by (simp_all add: tap_estimate_def calculatedBpm_def js_div_def Let_def fl_500 fl_120
      fl_1000 fl_60 Math_round_def)

lemma run_taps_append: "run_taps (es @ fs) c = run_taps fs (run_taps es c)"
  by (induction es arbitrary: c) simp_all

lemma cleanups_suffix:
  assumes "\<exists>h. tapTimes c = h @ xs" and "\<forall>f \<in> set fs. \<forall>x \<in> set xs. f - x < 2000"
  shows "\<exists>h. tapTimes (run_taps (map Cleanup fs) c) = h @ xs"
  using assms
proof (induction fs arbitrary: c)
  case Nil
  then show ?case by simp
next
  case (Cons f fs)
  have "\<exists>h. tapTimes (clearOldTaps f c) = h @ xs"
    using Cons.prems by (intro clearOldTaps_suffix) simp_all
  then show ?case using Cons.IH [of "clearOldTaps f c"] Cons.prems(2) by simp
qed

lemma tap_suffix:
  assumes "\<exists>h. tapTimes c = h @ xs" and "length xs < 4"
  shows "\<exists>h. tapTimes (handleTapTempo now c) = h @ (xs @ [now])"
proof -
  obtain h where h: "tapTimes c = h @ xs" using assms(1) by blast
  have "\<exists>k. slice_last 4 (h @ (xs @ [now])) = k @ (xs @ [now])"
    using assms(2) by (intro slice_last_suffix) simp
  then show ?thesis by (simp add: handleTapTempo_history h)
qed

lemma cleanups_quiet:
  assumes "tapTimes c = xs" and "\<forall>f \<in> set fs. \<forall>x \<in> set xs. f - x < 2000"
  shows "tapTimes (run_taps (map Cleanup fs) c) = xs
    \<and> ui_bpm (run_taps (map Cleanup fs) c) = ui_bpm c
    \<and> metronome (run_taps (map Cleanup fs) c) = metronome c"
  using assms
proof (induction fs arbitrary: c)
  case Nil
  then show ?case by simp
next
  case (Cons f fs)
  have keep: "filter (\<lambda>time. f - time < 2000) xs = xs" using Cons.prems(2) by simp
  have t: "tapTimes (clearOldTaps f c) = xs"
    using clearOldTaps_cases [of f c] Cons.prems(1) keep by auto
  show ?case
    using Cons.IH [OF t] Cons.prems(2) clearOldTaps_tempo [of f c] by simp
qed

lemma tap_quiet:
  assumes "tapTimes c = xs" and "length xs < 4" and "tap_estimate (xs @ [now]) = None"
  shows "tapTimes (handleTapTempo now c) = xs @ [now]
    \<and> ui_bpm (handleTapTempo now c) = ui_bpm c
    \<and> metronome (handleTapTempo now c) = metronome c"
proof -
  have "length (xs @ [now]) \<le> 4" using assms(2) by simp
  then have s: "slice_last 4 (tapTimes c @ [now]) = xs @ [now]"
    unfolding assms(1) by (rule slice_last_short)
  have n: "tap_estimate (slice_last 4 (tapTimes c @ [now])) = None"
    unfolding s by (rule assms(3))
  show ?thesis
    using handleTapTempo_not_applied [OF n] by (simp add: handleTapTempo_history s)
qed

lemma four_taps_500:
  assumes fs: "\<forall>f \<in> set (fs1 @ fs2 @ fs3). f < t + 2000"
  shows "ui_bpm (run_taps (Tap t # map Cleanup fs1 @ Tap (t + 500) # map Cleanup fs2
           @ Tap (t + 1000) # map Cleanup fs3 @ [Tap (t + 1500)]) c) = 120"
proof -
  let ?c1 = "handleTapTempo t c"
  let ?c2 = "run_taps (map Cleanup fs1) ?c1"
  let ?c3 = "handleTapTempo (t + 500) ?c2"
  let ?c4 = "run_taps (map Cleanup fs2) ?c3"
  let ?c5 = "handleTapTempo (t + 1000) ?c4"
  let ?c6 = "run_taps (map Cleanup fs3) ?c5"
  have k: "f - x < 2000" if "f \<in> set (fs1 @ fs2 @ fs3)" and "t \<le> x" for f x
  proof -
    have "f < t + 2000" using fs that(1) by blast
    then show ?thesis using that(2) by linarith
  qed
  have k1: "\<forall>f \<in> set fs1. \<forall>x \<in> set [t]. f - x < 2000" using k by simp
  have k2: "\<forall>f \<in> set fs2. \<forall>x \<in> set [t, t + 500]. f - x < 2000" using k by simp
  have k3: "\<forall>f \<in> set fs3. \<forall>x \<in> set [t, t + 500, t + 1000]. f - x < 2000"
    using k by simp
  have 1: "\<exists>h. tapTimes ?c1 = h @ [t]"
    using tap_suffix [of c "[]" t] by simp
  have 2: "\<exists>h. tapTimes ?c2 = h @ [t]"
    using 1 k1 by (rule cleanups_suffix)
  have 3: "\<exists>h. tapTimes ?c3 = h @ [t, t + 500]"
    using tap_suffix [OF 2, of "t + 500"] by simp
  have 4: "\<exists>h. tapTimes ?c4 = h @ [t, t + 500]"
    using 3 k2 by (rule cleanups_suffix)
  have 5: "\<exists>h. tapTimes ?c5 = h @ [t, t + 500, t + 1000]"
    using tap_suffix [OF 4, of "t + 1000"] by simp
  have 6: "\<exists>h. tapTimes ?c6 = h @ [t, t + 500, t + 1000]"
    using 5 k3 by (rule cleanups_suffix)
  then obtain h where h: "tapTimes ?c6 = h @ [t, t + 500, t + 1000]" by blast
  have w: "slice_last 4 (tapTimes ?c6 @ [t + 1500]) = [t, t + 500, t + 1000, t + 1500]"
    using slice_last_exact [of "[t, t + 500, t + 1000, t + 1500]" 4 h] by (simp add: h)
  have "ui_bpm (handleTapTempo (t + 1500) ?c6) = of_int 120"
    by (rule handleTapTempo_applied(1)) (simp only: w estimate_500)
  moreover have "run_taps (Tap t # map Cleanup fs1 @ Tap (t + 500) # map Cleanup fs2
           @ Tap (t + 1000) # map Cleanup fs3 @ [Tap (t + 1500)]) c
      = handleTapTempo (t + 1500) ?c6"
    by (simp add: run_taps_append)
  ultimately show ?thesis by simp
qed

lemma four_taps_171:
  assumes e: "tapTimes c = []" and fs: "\<forall>f \<in> set (fs1 @ fs2 @ fs3). f < t + 2000"
  shows "ui_bpm (run_taps (Tap t # map Cleanup fs1 @ Tap (t + 171) # map Cleanup fs2
           @ Tap (t + 342) # map Cleanup fs3 @ [Tap (t + 513)]) c) = ui_bpm c
    \<and> metronome (run_taps (Tap t # map Cleanup fs1 @ Tap (t + 171) # map Cleanup fs2
           @ Tap (t + 342) # map Cleanup fs3 @ [Tap (t + 513)]) c) = metronome c"
proof -
  let ?c1 = "handleTapTempo t c"
  let ?c2 = "run_taps (map Cleanup fs1) ?c1"
  let ?c3 = "handleTapTempo (t + 171) ?c2"
  let ?c4 = "run_taps (map Cleanup fs2) ?c3"
  let ?c5 = "handleTapTempo (t + 342) ?c4"
  let ?c6 = "run_taps (map Cleanup fs3) ?c5"
  let ?c7 = "handleTapTempo (t + 513) ?c6"
  have k: "f - x < 2000" if "f \<in> set (fs1 @ fs2 @ fs3)" and "t \<le> x" for f x
  proof -
    have "f < t + 2000" using fs that(1) by blast
    then show ?thesis using that(2) by linarith
  qed
  have k1: "\<forall>f \<in> set fs1. \<forall>x \<in> set [t]. f - x < 2000" using k by simp
  have k2: "\<forall>f \<in> set fs2. \<forall>x \<in> set [t, t + 171]. f - x < 2000" using k by simp
  have k3: "\<forall>f \<in> set fs3. \<forall>x \<in> set [t, t + 171, t + 342]. f - x < 2000"
    using k by simp
  have one: "tap_estimate ([] @ [t]) = None" by (simp add: tap_estimate_def)
  have 1: "tapTimes ?c1 = [t] \<and> ui_bpm ?c1 = ui_bpm c \<and> metronome ?c1 = metronome c"
    using tap_quiet [OF e _ one] by simp
  have 2: "tapTimes ?c2 = [t] \<and> ui_bpm ?c2 = ui_bpm c \<and> metronome ?c2 = metronome c"
    using cleanups_quiet [of ?c1 "[t]" fs1] 1 k1 by simp
  have 3: "tapTimes ?c3 = [t, t + 171] \<and> ui_bpm ?c3 = ui_bpm c \<and> metronome ?c3 = metronome c"
    using tap_quiet [of ?c2 "[t]" "t + 171"] 2 estimate_171(1) [of t] by simp
  have 4: "tapTimes ?c4 = [t, t + 171] \<and> ui_bpm ?c4 = ui_bpm c \<and> metronome ?c4 = metronome c"
    using cleanups_quiet [of ?c3 "[t, t + 171]" fs2] 3 k2 by simp
  have 5: "tapTimes ?c5 = [t, t + 171, t + 342] \<and> ui_bpm ?c5 = ui_bpm c
      \<and> metronome ?c5 = metronome c"
    using tap_quiet [of ?c4 "[t, t + 171]" "t + 342"] 4 estimate_171(2) [of t] by simp
  have 6: "tapTimes ?c6 = [t, t + 171, t + 342] \<and> ui_bpm ?c6 = ui_bpm c
      \<and> metronome ?c6 = metronome c"
    using cleanups_quiet [of ?c5 "[t, t + 171, t + 342]" fs3] 5 k3 by simp
  have 7: "tapTimes ?c7 = [t, t + 171, t + 342, t + 513] \<and> ui_bpm ?c7 = ui_bpm c
      \<and> metronome ?c7 = metronome c"
    using tap_quiet [of ?c6 "[t, t + 171, t + 342]" "t + 513"] 6 estimate_171(3) [of t] by simp
  have "run_taps (Tap t # map Cleanup fs1 @ Tap (t + 171) # map Cleanup fs2
           @ Tap (t + 342) # map Cleanup fs3 @ [Tap (t + 513)]) c = ?c7"
    by (simp add: run_taps_append)
  then show ?thesis using 7 by simp
qed

lemma run_tie:
  "ui_bpm (run_taps [Tap 0, Tap 500, Tap 1000, Tap 1600] TapControls0) = 112"
proof -
  let ?c = "run_taps [Tap 0, Tap 500, Tap 1000] TapControls0"
  have h: "tapTimes ?c = [0, 500, 1000]"
    by (simp add: handleTapTempo_history TapControls0_def slice_last_def)
  have w: "slice_last 4 (tapTimes ?c @ [1600]) = [0, 500, 1000, 1600]"
    unfolding h by (simp add: slice_last_def)
  have "ui_bpm (handleTapTempo 1600 ?c) = of_int 112"
    by (rule handleTapTempo_applied(1)) (simp only: w estimate_tie)
  then show ?thesis by simp
qed

lemma run_gap:
  "tapTimes (run_taps [Tap 0, Tap 1000, Cleanup 2000, Tap 2500] TapControls0) = [1000, 2500]"
  "ui_bpm (run_taps [Tap 0, Tap 1000, Cleanup 2000, Tap 2500] TapControls0) = 40"
proof -
  let ?c2 = "run_taps [Tap 0, Tap 1000] TapControls0"
  let ?c3 = "clearOldTaps 2000 ?c2"
  have h2: "tapTimes ?c2 = [0, 1000]"
    by (simp add: handleTapTempo_history TapControls0_def slice_last_def)
  have t2: "cleanupTimers ?c2 = [2000, 3000]"
    by (simp add: handleTapTempo_timers TapControls0_def)
  have h3: "tapTimes ?c3 = [1000]"
    using clearOldTaps_fired(1) [of ?c2 2000 "[3000]" 2000] t2 h2 by simp
  have w: "slice_last 4 (tapTimes ?c3 @ [2500]) = [1000, 2500]"
    unfolding h3 by (simp add: slice_last_def)
  have r: "run_taps [Tap 0, Tap 1000, Cleanup 2000, Tap 2500] TapControls0
      = handleTapTempo 2500 ?c3" by simp
  show "tapTimes (run_taps [Tap 0, Tap 1000, Cleanup 2000, Tap 2500] TapControls0) = [1000, 2500]"
    unfolding r handleTapTempo_history w ..
  have "ui_bpm (handleTapTempo 2500 ?c3) = of_int 40"
    by (rule handleTapTempo_applied(1)) (simp only: w estimate_1500)
  then show "ui_bpm (run_taps [Tap 0, Tap 1000, Cleanup 2000, Tap 2500] TapControls0) = 40"
    unfolding r by simp
qed

text \<open>
  Claim C6 as stated fails. For taps at 0, 500, 1000 and 1600 ms the mean interval is
  1600 / 3 and \<open>60000 / mean\<close> is 112.5, which rounds to 113; the two divisions in
  doubles give a quotient just below 112.5 and the tempo applied is 112. And the history
  is not always the last 4 taps: of the taps at 0, 1000 and 2500 ms the first is dropped
  by its clean-up timer at 2000 ms, so that the third tap finds one tap before it and
  gives 40.
\<close>

theorem C6_tap_tempo_counterexample:
  "Math_round (60000 / (real_of_int (sum_list (intervals [0, 500, 1000, 1600]))
      / real (length (intervals [0, 500, 1000, 1600])))) = 113
   \<and> tap_estimate [0, 500, 1000, 1600] = Some 112
   \<and> ui_bpm (run_taps [Tap 0, Tap 500, Tap 1000, Tap 1600] TapControls0) = 112
   \<and> tapTimes (run_taps [Tap 0, Tap 1000, Cleanup 2000, Tap 2500] TapControls0) = [1000, 2500]
   \<and> ui_bpm (run_taps [Tap 0, Tap 1000, Cleanup 2000, Tap 2500] TapControls0) = 40"
  using exact_tie estimate_tie run_tie run_gap by blast

text \<open>
  Claim C6, amended. Each tap is appended to the history, of which the last 4 entries
  are kept, and arms a clean-up timer; when the timer runs, 2000 ms after the tap or
  later, it drops the entries that are then 2000 ms old or older and leaves the tempo as
  it is. With at least 2 entries in the new history the estimate is
  \<open>Math.round(60000 / mean)\<close> in double arithmetic: the mean of the differences of
  consecutive entries, which is the span of the history over the number of gaps, rounded
  to the nearest double, and the quotient of 60000 by it rounded to the nearest double.
  The estimate is applied to the displayed tempo and to the engine only when it lies in
  40..300, and otherwise tempo and engine stay as they are. Four taps 500 ms apart give
  120 whatever the history before them, and taps 171 ms apart on an empty history give no
  estimate, with clean-up timers running in between or not.
\<close>

theorem C6_tap_tempo:
  "tapTimes (handleTapTempo now c) = slice_last 4 (tapTimes c @ [now])
   \<and> length (tapTimes (handleTapTempo now c)) \<le> 4
   \<and> last (tapTimes (handleTapTempo now c)) = now
   \<and> cleanupTimers (handleTapTempo now c) = cleanupTimers c @ [now + 2000]
   \<and> (\<forall>due rest. cleanupTimers c = due # rest \<and> due \<le> f \<longrightarrow>
          tapTimes (clearOldTaps f c) = filter (\<lambda>time. f - time < 2000) (tapTimes c)
          \<and> cleanupTimers (clearOldTaps f c) = rest)
   \<and> ((cleanupTimers c = [] \<or> f < hd (cleanupTimers c)) \<longrightarrow> clearOldTaps f c = c)
   \<and> ui_bpm (clearOldTaps f c) = ui_bpm c
   \<and> metronome (clearOldTaps f c) = metronome c
   \<and> (2 \<le> length ts \<longrightarrow>
        real_of_int (sum_list (intervals ts)) / real (length (intervals ts))
          = real_of_int (last ts - hd ts) / real (length ts - 1)
        \<and> tap_estimate ts =
            (let mean = real_of_int (sum_list (intervals ts)) / real (length (intervals ts));
                 b = Math_round (fl (60000 / fl mean))
             in if mean \<noteq> 0 \<and> 40 \<le> b \<and> b \<le> 300 then Some b else None))
   \<and> (length ts < 2 \<longrightarrow> tap_estimate ts = None)
   \<and> (\<forall>b. tap_estimate (tapTimes (handleTapTempo now c)) = Some b \<longrightarrow>
          40 \<le> b \<and> b \<le> 300
          \<and> ui_bpm (handleTapTempo now c) = of_int b
          \<and> bpm (metronome (handleTapTempo now c)) = of_int b)
   \<and> (tap_estimate (tapTimes (handleTapTempo now c)) = None \<longrightarrow>
          ui_bpm (handleTapTempo now c) = ui_bpm c
          \<and> metronome (handleTapTempo now c) = metronome c)
   \<and> tap_estimate [t, t + 500, t + 1000, t + 1500] = Some 120
   \<and> ((\<forall>f \<in> set (fs1 @ fs2 @ fs3). f < t + 2000) \<longrightarrow>
          ui_bpm (run_taps (Tap t # map Cleanup fs1 @ Tap (t + 500) # map Cleanup fs2
             @ Tap (t + 1000) # map Cleanup fs3 @ [Tap (t + 1500)]) c) = 120)
   \<and> tap_estimate [t, t + 171] = None
   \<and> tap_estimate [t, t + 171, t + 342] = None
   \<and> tap_estimate [t, t + 171, t + 342, t + 513] = None
   \<and> (tapTimes c = [] \<and> (\<forall>f \<in> set (fs1 @ fs2 @ fs3). f < t + 2000) \<longrightarrow>
          ui_bpm (run_taps (Tap t # map Cleanup fs1 @ Tap (t + 171) # map Cleanup fs2
             @ Tap (t + 342) # map Cleanup fs3 @ [Tap (t + 513)]) c) = ui_bpm c
          \<and> metronome (run_taps (Tap t # map Cleanup fs1 @ Tap (t + 171) # map Cleanup fs2
             @ Tap (t + 342) # map Cleanup fs3 @ [Tap (t + 513)]) c) = metronome c)"
proof -
  have h: "tapTimes (handleTapTempo now c) = slice_last 4 (tapTimes c @ [now])"
    by (rule handleTapTempo_history)
  have l: "length (tapTimes (handleTapTempo now c)) \<le> 4"
    unfolding h by (simp add: slice_last_length)
  have la: "last (tapTimes (handleTapTempo now c)) = now"
    unfolding h by (rule slice_last_snoc) simp
  have tm: "cleanupTimers (handleTapTempo now c) = cleanupTimers c @ [now + 2000]"
    by (rule handleTapTempo_timers)
  have fired: "\<forall>due rest. cleanupTimers c = due # rest \<and> due \<le> f \<longrightarrow>
          tapTimes (clearOldTaps f c) = filter (\<lambda>time. f - time < 2000) (tapTimes c)
          \<and> cleanupTimers (clearOldTaps f c) = rest"
    using clearOldTaps_fired [of c _ _ f] by blast
  have idle: "(cleanupTimers c = [] \<or> f < hd (cleanupTimers c)) \<longrightarrow> clearOldTaps f c = c"
    by (auto simp: clearOldTaps_def split: list.splits)
  have keep: "ui_bpm (clearOldTaps f c) = ui_bpm c" "metronome (clearOldTaps f c) = metronome c"
    by (rule clearOldTaps_tempo)+
  have est: "real_of_int (sum_list (intervals ts)) / real (length (intervals ts))
          = real_of_int (last ts - hd ts) / real (length ts - 1)
        \<and> tap_estimate ts =
            (let mean = real_of_int (sum_list (intervals ts)) / real (length (intervals ts));
                 b = Math_round (fl (60000 / fl mean))
             in if mean \<noteq> 0 \<and> 40 \<le> b \<and> b \<le> 300 then Some b else None)"
    if two: "2 \<le> length ts"
  proof -
    have ne: "ts \<noteq> []" using two by auto
    have cnt: "0 < real (length ts - 1)" using two by simp
    have m: "real_of_int (sum_list (intervals ts)) / real (length (intervals ts))
          = real_of_int (last ts - hd ts) / real (length ts - 1)"
      by (simp add: intervals_telescope [OF ne] intervals_length)
    have z: "(real_of_int (last ts - hd ts) / real (length ts - 1) = 0) = (last ts = hd ts)"
      using cnt by simp
    have g: "1 < length ts" using two by simp
    have "tap_estimate ts =
            (let mean = real_of_int (last ts - hd ts) / real (length ts - 1);
                 b = Math_round (fl (60000 / fl mean))
             in if mean \<noteq> 0 \<and> 40 \<le> b \<and> b \<le> 300 then Some b else None)"
      unfolding Let_def z
      by (simp only: tap_estimate_def calculatedBpm_mean [OF two] g if_True) simp
    then show ?thesis using m by simp
  qed
  have short: "tap_estimate ts = None" if "length ts < 2"
    using that by (simp add: tap_estimate_def)
  have app: "40 \<le> b \<and> b \<le> 300
          \<and> ui_bpm (handleTapTempo now c) = of_int b
          \<and> bpm (metronome (handleTapTempo now c)) = of_int b"
    if e: "tap_estimate (tapTimes (handleTapTempo now c)) = Some b" for b
  proof -
    have e': "tap_estimate (slice_last 4 (tapTimes c @ [now])) = Some b" using e h by simp
    have "40 \<le> b \<and> b \<le> 300"
      using e by (simp add: tap_estimate_def split: if_splits option.splits)
    then show ?thesis
      using handleTapTempo_applied(1) [OF e'] handleTapTempo_applied(2) [OF e'] by simp
  qed
  have napp: "ui_bpm (handleTapTempo now c) = ui_bpm c
          \<and> metronome (handleTapTempo now c) = metronome c"
    if e: "tap_estimate (tapTimes (handleTapTempo now c)) = None"
  proof -
    have e': "tap_estimate (slice_last 4 (tapTimes c @ [now])) = None" using e h by simp
    show ?thesis
      using handleTapTempo_not_applied(1) [OF e'] handleTapTempo_not_applied(2) [OF e'] by simp
  qed
  have f500: "ui_bpm (run_taps (Tap t # map Cleanup fs1 @ Tap (t + 500) # map Cleanup fs2
             @ Tap (t + 1000) # map Cleanup fs3 @ [Tap (t + 1500)]) c) = 120"
    if "\<forall>f \<in> set (fs1 @ fs2 @ fs3). f < t + 2000"
    using that by (rule four_taps_500)
  have f171: "ui_bpm (run_taps (Tap t # map Cleanup fs1 @ Tap (t + 171) # map Cleanup fs2
             @ Tap (t + 342) # map Cleanup fs3 @ [Tap (t + 513)]) c) = ui_bpm c
          \<and> metronome (run_taps (Tap t # map Cleanup fs1 @ Tap (t + 171) # map Cleanup fs2
             @ Tap (t + 342) # map Cleanup fs3 @ [Tap (t + 513)]) c) = metronome c"
    if "tapTimes c = [] \<and> (\<forall>f \<in> set (fs1 @ fs2 @ fs3). f < t + 2000)"
    using that four_taps_171 [of c fs1 fs2 fs3 t] by blast
  show ?thesis
    using h l la tm fired idle keep est short app napp estimate_500 f500 estimate_171 f171
    by (intro conjI) blast+
qed

theorem C6_tap_tempo_witness:
  "tapTimes (handleTapTempo 1500 (run_taps [Tap 0, Tap 500, Tap 1000] TapControls0))
     = [0, 500, 1000, 1500]
   \<and> tap_estimate [0, 500, 1000, 1500] = Some 120
   \<and> bpm (metronome (handleTapTempo 1500 (run_taps [Tap 0, Tap 500, Tap 1000] TapControls0)))
       = 120
   \<and> tap_estimate [7] = None
   \<and> tapTimes (clearOldTaps 2000 (run_taps [Tap 0, Tap 1000] TapControls0)) = [1000]
   \<and> ui_bpm (run_taps [Tap 0, Cleanup 100, Tap 500, Tap 1000, Tap 1500] TapControls0) = 120
   \<and> ui_bpm (run_taps [Tap 0, Tap 171, Tap 342, Tap 513] TapControls0) = 120"
proof -
  let ?c = "run_taps [Tap 0, Tap 500, Tap 1000] TapControls0"
  let ?d = "run_taps [Tap 0, Tap 1000] TapControls0"
  note th = C6_tap_tempo [of 1500 ?c 2000 "[7]" 0 "[100]" "[]" "[]"]
  note tg = C6_tap_tempo [of 0 ?d 2000 "[]" 0 "[]" "[]" "[]"]
  note te = C6_tap_tempo [of 0 TapControls0 0 "[]" 0 "[]" "[]" "[]"]
  have tt: "tapTimes ?c = [0, 500, 1000]"
    by (simp add: handleTapTempo_history TapControls0_def slice_last_def)
  have h: "tapTimes (handleTapTempo 1500 ?c) = [0, 500, 1000, 1500]"
    using th unfolding tt by (simp add: slice_last_def)
  have e: "tap_estimate [0, 500, 1000, 1500] = Some 120" using th by simp
  have b: "bpm (metronome (handleTapTempo 1500 ?c)) = 120"
    using th unfolding h e by simp
  have s: "tap_estimate [7] = None" using th by simp
  have d1: "tapTimes ?d = [0, 1000]"
    by (simp add: handleTapTempo_history TapControls0_def slice_last_def)
  have d2: "cleanupTimers ?d = [2000, 3000]"
    by (simp add: handleTapTempo_timers TapControls0_def)
  have g: "tapTimes (clearOldTaps 2000 ?d) = [1000]"
    using tg unfolding d1 d2 by simp
  have r: "ui_bpm (run_taps [Tap 0, Cleanup 100, Tap 500, Tap 1000, Tap 1500] TapControls0) = 120"
    using C6_tap_tempo [of 0 TapControls0 0 "[]" 0 "[100]" "[]" "[]"] by simp
  have n: "ui_bpm (run_taps [Tap 0, Tap 171, Tap 342, Tap 513] TapControls0) = 120"
    using te by (simp add: TapControls0_def)
  show ?thesis using h e b s g r n by simp
qed

section \<open>The engine of MetronomeControls: timers and beats\<close>

lemma js_rem_nonneg: "0 \<le> a \<Longrightarrow> js_rem a 4 = a mod 4"
  by (simp add: js_rem_def)

lemma engine_inv_init: "engine_inv MetronomeSound0"
  by (simp add: engine_inv_def MetronomeSound0_def)

lemma inv_playing:
  assumes "engine_inv s" and "isPlaying s"
  obtains t where "timers s = [t]" and "timeoutId s = Some (timer_id t)"
    and "0 < timer_id t" and "timer_id t < nextTimerId s"
  using assms by (auto simp: engine_inv_def split: list.splits)

lemma inv_idle:
  assumes "engine_inv s" and "\<not> isPlaying s"
  shows "timers s = []" and "timeoutId s = None"
  using assms by (auto simp: engine_inv_def)

lemma inv_fields:
  assumes "engine_inv s"
  shows "intervalId s = None" and "0 < nextTimerId s" and "40 \<le> bpm s" and "bpm s \<le> 300"
    and "- 1 \<le> beatCount s"
  using assms by (auto simp: engine_inv_def)

lemma start_idle:
  assumes inv: "engine_inv s" and idle: "\<not> isPlaying s"
  shows "start s = s\<lparr>isPlaying := True, timeoutId := Some (nextTimerId s),
           beatCount := 0, currentBeat := 0,
           timers := [\<lparr>timer_id = nextTimerId s, timer_delay = Some (60000 / bpm s),
                       timer_callback = BeatTimeout\<rparr>],
           nextTimerId := nextTimerId s + 1,
           played := played s @ [(0, 0, True)]\<rparr>"
proof -
  have b: "bpm s \<noteq> 0" using inv_fields(3) [OF inv] by simp
  show ?thesis
    using idle b inv_idle(1) [OF inv idle]
    by (simp add: start_def scheduleNextBeat_def playBeat_def setTimeout_def interval_of_def
        js_rem_def Let_def)
qed

lemma tick_running:
  assumes inv: "engine_inv s" and run: "isPlaying s"
  shows "tick s = s\<lparr>timeoutId := Some (nextTimerId s),
           beatCount := beatCount s + 1, currentBeat := (beatCount s + 1) mod 4,
           timers := [\<lparr>timer_id = nextTimerId s, timer_delay = Some (60000 / bpm s),
                       timer_callback = BeatTimeout\<rparr>],
           nextTimerId := nextTimerId s + 1,
           played := played s @ [(beatCount s + 1, (beatCount s + 1) mod 4,
                                  (beatCount s + 1) mod 4 = 0)]\<rparr>"
proof -
  obtain t where t: "timers s = [t]" using inv_playing [OF inv run] by metis
  have b: "bpm s \<noteq> 0" using inv_fields(3) [OF inv] by simp
  have c: "0 \<le> beatCount s + 1" using inv_fields(5) [OF inv] by simp
  show ?thesis
    using run b t js_rem_nonneg [OF c]
    by (cases "timer_callback t")
      (simp_all add: tick_def fire_def run_callback_def clearTimeout_def scheduleNextBeat_def
        playBeat_def setTimeout_def interval_of_def Let_def)
qed

lemma tick_idle:
  assumes inv: "engine_inv s" and idle: "\<not> isPlaying s"
  shows "tick s = s"
  using inv_idle(1) [OF inv idle] by (simp add: tick_def)

lemma fire_cases:
  assumes inv: "engine_inv s"
  shows "fire i s = s \<or> fire i s = tick s"
proof (cases "isPlaying s")
  case True
  obtain t where t: "timers s = [t]" using inv_playing [OF inv True] by metis
  show ?thesis using t by (simp add: fire_def tick_def)
next
  case False
  show ?thesis using inv_idle(1) [OF inv False] by (simp add: fire_def)
qed

lemma setBPM_running:
  assumes inv: "engine_inv s" and run: "isPlaying s"
  shows "setBPM x s = s\<lparr>timeoutId := Some (nextTimerId s), bpm := min (max x 40) 300,
           timers := [\<lparr>timer_id = nextTimerId s,
                       timer_delay = Some (60000 / min (max x 40) 300),
                       timer_callback = TempoTimeout\<rparr>],
           nextTimerId := nextTimerId s + 1\<rparr>"
proof -
  obtain t where t: "timers s = [t]" "timeoutId s = Some (timer_id t)" "0 < timer_id t"
    using inv_playing [OF inv run] by metis
  have b: "min (max x 40) 300 \<noteq> (0::real)" by (simp add: min_def max_def)
  show ?thesis
    using run t b
    by (simp add: setBPM_def clearTimeout_def setTimeout_def interval_of_def Let_def)
qed

lemma setBPM_idle:
  assumes inv: "engine_inv s" and idle: "\<not> isPlaying s"
  shows "setBPM x s = s\<lparr>bpm := min (max x 40) 300\<rparr>"
  using inv_idle(2) [OF inv idle] by (simp add: setBPM_def Let_def)

lemma stop_any:
  assumes inv: "engine_inv s"
  shows "stop s = s\<lparr>isPlaying := False, timeoutId := None, timers := []\<rparr>"
proof (cases "isPlaying s")
  case True
  obtain t where t: "timers s = [t]" "timeoutId s = Some (timer_id t)" "0 < timer_id t"
    using inv_playing [OF inv True] by metis
  show ?thesis
    using t inv_fields(1) [OF inv] by (simp add: stop_def clearTimeout_def Let_def)
next
  case False
  show ?thesis
    using False inv_idle [OF inv False] inv_fields(1) [OF inv]
    by (simp add: stop_def Let_def)
qed

lemma engine_inv_start: "engine_inv s \<Longrightarrow> engine_inv (start s)"
proof (cases "isPlaying s")
  case True
  then show "engine_inv s \<Longrightarrow> engine_inv (start s)" by (simp add: start_def)
next
  case False
  assume inv: "engine_inv s"
  show "engine_inv (start s)"
    unfolding start_idle [OF inv False] using inv by (simp add: engine_inv_def)
qed

lemma engine_inv_tick: "engine_inv s \<Longrightarrow> engine_inv (tick s)"
proof (cases "isPlaying s")
  case True
  assume inv: "engine_inv s"
  show "engine_inv (tick s)"
    unfolding tick_running [OF inv True] using inv True by (simp add: engine_inv_def)
next
  case False
  assume inv: "engine_inv s"
  show "engine_inv (tick s)" unfolding tick_idle [OF inv False] by (rule inv)
qed

lemma engine_inv_setBPM: "engine_inv s \<Longrightarrow> engine_inv (setBPM x s)"
proof (cases "isPlaying s")
  case True
  assume inv: "engine_inv s"
  show "engine_inv (setBPM x s)"
    unfolding setBPM_running [OF inv True] using inv True by (simp add: engine_inv_def)
next
  case False
  assume inv: "engine_inv s"
  show "engine_inv (setBPM x s)"
    unfolding setBPM_idle [OF inv False] using inv False by (simp add: engine_inv_def)
qed

lemma engine_inv_stop: "engine_inv s \<Longrightarrow> engine_inv (stop s)"
proof -
  assume inv: "engine_inv s"
  show "engine_inv (stop s)"
    unfolding stop_any [OF inv] using inv by (simp add: engine_inv_def)
qed

lemma engine_inv_exec: "engine_inv s \<Longrightarrow> engine_inv (exec c s)"
proof (cases c)
  case (Fire i)
  assume inv: "engine_inv s"
  show "engine_inv (exec c s)"
    using fire_cases [OF inv, of i] inv engine_inv_tick [OF inv] Fire by auto
next
  case ResetBeatCount
  assume "engine_inv s"
  then show "engine_inv (exec c s)"
    using ResetBeatCount by (auto simp: engine_inv_def split: list.splits)
qed (simp_all add: engine_inv_start engine_inv_stop engine_inv_setBPM engine_inv_tick)

lemma engine_inv_run: "engine_inv s \<Longrightarrow> engine_inv (run cs s)"
  by (induction cs arbitrary: s) (simp_all add: engine_inv_exec)

lemma engine_inv_reachable: "engine_inv (run cs MetronomeSound0)"
  by (rule engine_inv_run) (rule engine_inv_init)

lemma ticks_running:
  assumes inv: "engine_inv s" and run: "isPlaying s"
  shows "engine_inv ((tick ^^ n) s) \<and> isPlaying ((tick ^^ n) s)
    \<and> beatCount ((tick ^^ n) s) = beatCount s + int n
    \<and> bpm ((tick ^^ n) s) = bpm s
    \<and> played ((tick ^^ n) s)
        = played s @ map (\<lambda>k. beat_entry (beatCount s + int k)) [1..<Suc n]"
proof (induction n)
  case 0
  show ?case using inv run by simp
next
  case (Suc n)
  let ?s = "(tick ^^ n) s"
  have i: "engine_inv ?s" and r: "isPlaying ?s" using Suc.IH by simp_all
  have st: "(tick ^^ Suc n) s = tick ?s" by simp
  have bc: "beatCount ?s = beatCount s + int n" using Suc.IH by simp
  have pl: "played ?s = played s @ map (\<lambda>k. beat_entry (beatCount s + int k)) [1..<Suc n]"
    using Suc.IH by simp
  have up: "[1..<Suc (Suc n)] = [1..<Suc n] @ [Suc n]" by simp
  have e: "beatCount s + int n + 1 = beatCount s + int (Suc n)" by simp
  have 1: "engine_inv (tick ?s)" using i by (rule engine_inv_tick)
  have 2: "isPlaying (tick ?s)" using r by (simp add: tick_running [OF i r])
  have 3: "beatCount (tick ?s) = beatCount s + int (Suc n)"
    by (simp add: tick_running [OF i r] bc)
  have 4: "bpm (tick ?s) = bpm s" using Suc.IH by (simp add: tick_running [OF i r])
  have "played (tick ?s) = played ?s @ [beat_entry (beatCount ?s + 1)]"
    by (simp add: tick_running [OF i r] beat_entry_def)
  then have 5: "played (tick ?s)
      = played s @ map (\<lambda>k. beat_entry (beatCount s + int k)) [1..<Suc (Suc n)]"
    unfolding up pl bc e by simp
  show ?case unfolding st using 1 2 3 4 5 by blast
qed

lemma start_then_ticks:
  assumes inv: "engine_inv s" and idle: "\<not> isPlaying s"
  shows "played ((tick ^^ n) (start s)) = played s @ map (\<lambda>k. beat_entry (int k)) [0..<Suc n]"
proof -
  have i: "engine_inv (start s)" using inv by (rule engine_inv_start)
  have r: "isPlaying (start s)" by (simp add: start_idle [OF inv idle])
  have b: "beatCount (start s) = 0" by (simp add: start_idle [OF inv idle])
  have p: "played (start s) = played s @ [beat_entry 0]"
    by (simp add: start_idle [OF inv idle] beat_entry_def)
  have u: "[0..<Suc n] = 0 # [1..<Suc n]" by (simp add: upt_rec)
  have "played ((tick ^^ n) (start s))
          = played (start s) @ map (\<lambda>k. beat_entry (beatCount (start s) + int k)) [1..<Suc n]"
    using ticks_running [OF i r, of n] by simp
  then show ?thesis unfolding u by (simp add: p b)
qed

text \<open>
  Claim C3. On an idle engine \<open>start\<close> sets \<open>beatCount\<close> to -1 and plays a beat at
  once, which is therefore beat 0 of count 0. With \<open>n\<close> timer firings after it the
  recorded beats are the counts \<open>0..n\<close>, each with \<open>currentBeat = beatCount % 4\<close> and
  the downbeat on the multiples of 4. Starting at 120 BPM and stopping after 4 ticks
  leaves the counts 0, 1, 2, 3 on the beats 0, 1, 2, 3. The play button of the controls
  starts the engine at its tempo by \<open>beatCount = -1\<close>, \<open>setBPM\<close>, \<open>start\<close>, with the
  same first beat.
\<close>

theorem C3_start_first_beat:
  assumes s: "s = run cs MetronomeSound0" and idle: "\<not> isPlaying s"
  shows "start s = scheduleNextBeat (playBeat (s\<lparr>isPlaying := True, beatCount := - 1, currentBeat := 0\<rparr>))
    \<and> played (start s) = played s @ [(0, 0, True)]
    \<and> isPlaying (start s) \<and> beatCount (start s) = 0 \<and> currentBeat (start s) = 0
    \<and> played ((tick ^^ n) (start s)) = played s @ map (\<lambda>k. beat_entry (int k)) [0..<Suc n]
    \<and> (\<forall>k \<le> n. played ((tick ^^ n) (start s)) ! (length (played s) + k)
                  = (int k, js_rem (int k) 4, js_rem (int k) 4 = 0))
    \<and> played (stop ((tick ^^ 3) (start (setBPM 120 s))))
        = played s @ [(0, 0, True), (1, 1, False), (2, 2, False), (3, 3, False)]
    \<and> map timer_delay (timers (start (setBPM 120 s))) = [Some 500]
    \<and> timers (stop ((tick ^^ 3) (start (setBPM 120 s)))) = []
    \<and> played (metronome (togglePlay
          \<lparr>ui_bpm = 120, ui_isPlaying = False, tapTimes = ts, metronome = s\<rparr>))
        = played s @ [(0, 0, True)]
    \<and> map timer_delay (timers (metronome (togglePlay
          \<lparr>ui_bpm = 120, ui_isPlaying = False, tapTimes = ts, metronome = s\<rparr>)))
        = [Some 500]"
proof -
  have inv: "engine_inv s" unfolding s by (rule engine_inv_reachable)
  have d: "start s = scheduleNextBeat (playBeat (s\<lparr>isPlaying := True, beatCount := - 1, currentBeat := 0\<rparr>))"
    using idle by (simp add: start_def)
  have st: "played (start s) = played s @ [(0, 0, True)]"
    "isPlaying (start s)" "beatCount (start s) = 0" "currentBeat (start s) = 0"
    by (simp_all add: start_idle [OF inv idle])
  have tk: "played ((tick ^^ n) (start s)) = played s @ map (\<lambda>k. beat_entry (int k)) [0..<Suc n]"
    using inv idle by (rule start_then_ticks)
  have nth: "played ((tick ^^ n) (start s)) ! (length (played s) + k)
                  = (int k, js_rem (int k) 4, js_rem (int k) 4 = 0)" if "k \<le> n" for k
  proof -
    have "k < length [0..<Suc n]" using that by simp
    then have "map (\<lambda>k. beat_entry (int k)) [0..<Suc n] ! k = beat_entry (int ([0..<Suc n] ! k))"
      by (rule nth_map)
    also have "[0..<Suc n] ! k = k" using that by (metis add_0 le_imp_less_Suc nth_upt)
    finally show ?thesis
      unfolding tk by (simp add: nth_append beat_entry_def js_rem_nonneg del: upt_Suc)
  qed
  let ?s1 = "setBPM 120 s"
  have inv1: "engine_inv ?s1" using inv by (rule engine_inv_setBPM)
  have s1: "?s1 = s\<lparr>bpm := 120\<rparr>" using setBPM_idle [OF inv idle, of 120] by simp
  have idle1: "\<not> isPlaying ?s1" using idle by (simp add: s1)
  have p1: "played ?s1 = played s" by (simp add: s1)
  have i3: "engine_inv ((tick ^^ 3) (start ?s1))"
    using ticks_running [OF engine_inv_start [OF inv1], of 3] start_idle [OF inv1 idle1]
    by simp
  have "played ((tick ^^ 3) (start ?s1)) = played ?s1 @ map (\<lambda>k. beat_entry (int k)) [0..<Suc 3]"
    using inv1 idle1 by (rule start_then_ticks)
  also have "[0..<Suc 3] = [0, 1, 2, 3]" by (simp add: upt_rec)
  finally have four: "played (stop ((tick ^^ 3) (start ?s1)))
        = played s @ [(0, 0, True), (1, 1, False), (2, 2, False), (3, 3, False)]"
    by (simp add: stop_any [OF i3] p1 beat_entry_def)
  have dl: "map timer_delay (timers (start ?s1)) = [Some 500]"
    unfolding start_idle [OF inv1 idle1] by (simp add: s1)
  have em: "timers (stop ((tick ^^ 3) (start ?s1))) = []"
    by (simp add: stop_any [OF i3])
  let ?r = "setBPM 120 (s\<lparr>beatCount := - 1\<rparr>)"
  have invr0: "engine_inv (s\<lparr>beatCount := - 1\<rparr>)"
    using engine_inv_exec [OF inv, of ResetBeatCount] by simp
  have idler0: "\<not> isPlaying (s\<lparr>beatCount := - 1\<rparr>)" using idle by simp
  have r: "?r = s\<lparr>beatCount := - 1, bpm := 120\<rparr>"
    using setBPM_idle [OF invr0 idler0, of 120] by simp
  have invr: "engine_inv ?r" using invr0 by (rule engine_inv_setBPM)
  have idler: "\<not> isPlaying ?r" using idle by (simp add: r)
  have fr: "played ?r = played s" "bpm ?r = 120" by (simp_all add: r)
  have tg: "metronome (togglePlay
          \<lparr>ui_bpm = 120, ui_isPlaying = False, tapTimes = ts, metronome = s\<rparr>) = start ?r"
    by (simp add: togglePlay_def)
  have tp: "played (start ?r) = played s @ [(0, 0, True)]"
    "map timer_delay (timers (start ?r)) = [Some 500]"
    unfolding start_idle [OF invr idler] by (simp_all add: fr)
  show ?thesis unfolding tg using d st tk nth four dl em tp by blast
qed

theorem C3_start_first_beat_witness:
  "\<not> isPlaying MetronomeSound0
   \<and> played (start MetronomeSound0) = [(0, 0, True)]
   \<and> played (run [SetBPM 120, Start, Tick, Tick, Tick, Stop] MetronomeSound0)
       = [(0, 0, True), (1, 1, False), (2, 2, False), (3, 3, False)]"
proof -
  have i: "\<not> isPlaying MetronomeSound0" by (simp add: MetronomeSound0_def)
  have r: "MetronomeSound0 = run [] MetronomeSound0" by simp
  have p: "played MetronomeSound0 = []" by (simp add: MetronomeSound0_def)
  have e: "run [SetBPM 120, Start, Tick, Tick, Tick, Stop] MetronomeSound0
            = stop ((tick ^^ 3) (start (setBPM 120 MetronomeSound0)))"
    by (simp add: numeral_3_eq_3)
  note th = C3_start_first_beat [OF r i, of 3 "[]", unfolded p]
  have a: "played (start MetronomeSound0) = [(0, 0, True)]"
    using th [THEN conjunct2, THEN conjunct1] by simp
  have b: "played (stop ((tick ^^ 3) (start (setBPM 120 MetronomeSound0))))
       = [(0, 0, True), (1, 1, False), (2, 2, False), (3, 3, False)]"
    using th by (elim conjE) simp
  show ?thesis using i a b unfolding e by simp
qed

text \<open>
  Claim C4. On a running engine \<open>setBPM\<close> stores its argument clamped to 40..300,
  removes the pending timer and arms a new single-shot timer with the interval
  \<open>60000 / bpm\<close> of the new tempo, and leaves \<open>beatCount\<close>, \<open>currentBeat\<close> and the
  beats played as they are. Every tick plays one beat and arms a new single-shot timer with
  the interval of the tempo stored at that moment, so the tick after a tempo change
  counts on from the old count and re-arms with the new interval.
\<close>

theorem C4_tempo_change_rearms:
  assumes s: "s = run cs MetronomeSound0" and run: "isPlaying s"
  shows "bpm (setBPM x s) = min (max x 40) 300
    \<and> 40 \<le> bpm (setBPM x s) \<and> bpm (setBPM x s) \<le> 300
    \<and> (\<forall>t \<in> set (timers s). timer_id t \<notin> timer_id ` set (timers (setBPM x s)))
    \<and> timers (setBPM x s)
        = [\<lparr>timer_id = nextTimerId s, timer_delay = Some (60000 / bpm (setBPM x s)),
            timer_callback = TempoTimeout\<rparr>]
    \<and> isPlaying (setBPM x s)
    \<and> beatCount (setBPM x s) = beatCount s
    \<and> currentBeat (setBPM x s) = currentBeat s
    \<and> played (setBPM x s) = played s
    \<and> timers (tick s)
        = [\<lparr>timer_id = nextTimerId s, timer_delay = Some (60000 / bpm s),
            timer_callback = BeatTimeout\<rparr>]
    \<and> beatCount (tick s) = beatCount s + 1
    \<and> currentBeat (tick s) = (beatCount s + 1) mod 4
    \<and> played (tick s) = played s @ [beat_entry (beatCount s + 1)]
    \<and> timers (tick (setBPM x s))
        = [\<lparr>timer_id = nextTimerId s + 1, timer_delay = Some (60000 / bpm (setBPM x s)),
            timer_callback = BeatTimeout\<rparr>]
    \<and> beatCount (tick (setBPM x s)) = beatCount s + 1
    \<and> currentBeat (tick (setBPM x s)) = (beatCount s + 1) mod 4
    \<and> played (tick (setBPM x s)) = played s @ [beat_entry (beatCount s + 1)]"
proof -
  have inv: "engine_inv s" unfolding s by (rule engine_inv_reachable)
  obtain t where t: "timers s = [t]" "timer_id t < nextTimerId s"
    using inv_playing [OF inv run] by metis
  note sb = setBPM_running [OF inv run, of x]
  have inv': "engine_inv (setBPM x s)" using inv by (rule engine_inv_setBPM)
  have run': "isPlaying (setBPM x s)" using run by (simp add: sb)
  have b: "bpm (setBPM x s) = min (max x 40) 300" by (simp add: sb)
  have r: "40 \<le> bpm (setBPM x s) \<and> bpm (setBPM x s) \<le> 300" unfolding b by simp
  have c: "\<forall>t \<in> set (timers s). timer_id t \<notin> timer_id ` set (timers (setBPM x s))"
    using t by (simp add: sb)
  have tm: "timers (setBPM x s)
        = [\<lparr>timer_id = nextTimerId s, timer_delay = Some (60000 / bpm (setBPM x s)),
            timer_callback = TempoTimeout\<rparr>]"
    by (simp add: sb)
  have keep: "beatCount (setBPM x s) = beatCount s" "currentBeat (setBPM x s) = currentBeat s"
    "played (setBPM x s) = played s" "nextTimerId (setBPM x s) = nextTimerId s + 1"
    by (simp_all add: sb)
  have tk: "timers (tick s)
        = [\<lparr>timer_id = nextTimerId s, timer_delay = Some (60000 / bpm s),
            timer_callback = BeatTimeout\<rparr>]"
    "beatCount (tick s) = beatCount s + 1"
    "currentBeat (tick s) = (beatCount s + 1) mod 4"
    "played (tick s) = played s @ [beat_entry (beatCount s + 1)]"
    by (simp_all add: tick_running [OF inv run] beat_entry_def)
  have tk': "timers (tick (setBPM x s))
        = [\<lparr>timer_id = nextTimerId s + 1, timer_delay = Some (60000 / bpm (setBPM x s)),
            timer_callback = BeatTimeout\<rparr>]"
    "beatCount (tick (setBPM x s)) = beatCount s + 1"
    "currentBeat (tick (setBPM x s)) = (beatCount s + 1) mod 4"
    "played (tick (setBPM x s)) = played s @ [beat_entry (beatCount s + 1)]"
    unfolding tick_running [OF inv' run'] by (simp_all add: keep beat_entry_def)
  show ?thesis using b r c tm run' keep(1,2,3) tk tk' by blast
qed

theorem C4_tempo_change_rearms_witness:
  "isPlaying (run [Start, Tick] MetronomeSound0)
   \<and> bpm (setBPM 500 (run [Start, Tick] MetronomeSound0)) = 300
   \<and> map timer_delay (timers (setBPM 500 (run [Start, Tick] MetronomeSound0))) = [Some 200]
   \<and> beatCount (setBPM 500 (run [Start, Tick] MetronomeSound0)) = 1
   \<and> beatCount (tick (setBPM 500 (run [Start, Tick] MetronomeSound0))) = 2
   \<and> map timer_delay (timers (tick (setBPM 500 (run [Start, Tick] MetronomeSound0))))
       = [Some 200]"
proof -
  let ?s = "run [Start, Tick] MetronomeSound0"
  have i0: "\<not> isPlaying MetronomeSound0" by (simp add: MetronomeSound0_def)
  have st: "isPlaying (start MetronomeSound0)" "beatCount (start MetronomeSound0) = 0"
    by (simp_all add: start_idle [OF engine_inv_init i0])
  have e: "?s = tick (start MetronomeSound0)" by simp
  have p: "isPlaying ?s" "beatCount ?s = 1"
    unfolding e
    by (simp_all add: tick_running [OF engine_inv_start [OF engine_inv_init] st(1)] st)
  note th = C4_tempo_change_rearms [OF refl p(1), of 500]
  have b: "bpm (setBPM 500 ?s) = 300" using th by simp
  have d: "map timer_delay (timers (setBPM 500 ?s)) = [Some 200]"
    using th unfolding b by simp
  have c: "beatCount (setBPM 500 ?s) = 1" using th p(2) by simp
  have c2: "beatCount (tick (setBPM 500 ?s)) = 2" using th p(2) by simp
  have d2: "map timer_delay (timers (tick (setBPM 500 ?s))) = [Some 200]"
    using th unfolding b by simp
  show ?thesis using p(1) b d c c2 d2 by blast
qed

text \<open>
  Claim C5. On a running engine \<open>stop\<close> removes the pending timer, so that no timer is
  left to fire: whatever firings the browser attempts afterwards, no beat is played and
  the engine stays as \<open>stop\<close> left it, and the callbacks themselves return at once on
  a stopped engine. \<open>stop\<close> leaves \<open>beatCount\<close> and \<open>currentBeat\<close> as they are.
\<close>

lemma run_firing_idle:
  assumes "engine_inv s" and "\<not> isPlaying s" and "\<forall>c \<in> set fs. firing c"
  shows "run fs s = s"
  using assms
proof (induction fs)
  case Nil
  show ?case by simp
next
  case (Cons c fs)
  have t: "timers s = []" using inv_idle(1) [OF Cons.prems(1,2)] .
  have "exec c s = s"
    using Cons.prems(3) t by (cases c) (simp_all add: tick_def fire_def)
  then show ?case using Cons by simp
qed

theorem C5_stop_cancels:
  assumes s: "s = run cs MetronomeSound0" and run: "isPlaying s"
  shows "timers (stop s) = [] \<and> \<not> isPlaying (stop s) \<and> timeoutId (stop s) = None
    \<and> beatCount (stop s) = beatCount s
    \<and> currentBeat (stop s) = currentBeat s
    \<and> played (stop s) = played s
    \<and> (\<forall>fs. (\<forall>c \<in> set fs. firing c) \<longrightarrow> run fs (stop s) = stop s)
    \<and> (\<forall>cb. run_callback cb (stop s) = stop s)"
proof -
  have inv: "engine_inv s" unfolding s by (rule engine_inv_reachable)
  note st = stop_any [OF inv]
  have inv': "engine_inv (stop s)" using inv by (rule engine_inv_stop)
  have idle: "\<not> isPlaying (stop s)" by (simp add: st)
  have f: "timers (stop s) = []" "timeoutId (stop s) = None" "beatCount (stop s) = beatCount s"
    "currentBeat (stop s) = currentBeat s" "played (stop s) = played s"
    by (simp_all add: st)
  have q: "run fs (stop s) = stop s" if "\<forall>c \<in> set fs. firing c" for fs
    using inv' idle that by (rule run_firing_idle)
  have cbk: "run_callback cb (stop s) = stop s" for cb
    using idle by (cases cb) (simp_all add: run_callback_def)
  show ?thesis using f idle q cbk by blast
qed

theorem C5_stop_cancels_witness:
  "isPlaying (run [Start, Tick] MetronomeSound0)
   \<and> timers (stop (run [Start, Tick] MetronomeSound0)) = []
   \<and> beatCount (stop (run [Start, Tick] MetronomeSound0)) = 1
   \<and> played (run [Tick, Fire 2, Fire 1, Tick] (stop (run [Start, Tick] MetronomeSound0)))
       = [(0, 0, True), (1, 1, False)]"
proof -
  let ?s = "run [Start, Tick] MetronomeSound0"
  have i0: "\<not> isPlaying MetronomeSound0" by (simp add: MetronomeSound0_def)
  have st: "isPlaying (start MetronomeSound0)" "beatCount (start MetronomeSound0) = 0"
    "played (start MetronomeSound0) = [(0, 0, True)]"
    unfolding start_idle [OF engine_inv_init i0] by (simp_all add: MetronomeSound0_def)
  have e: "?s = tick (start MetronomeSound0)" by simp
  have p: "isPlaying ?s" "beatCount ?s = 1" "played ?s = [(0, 0, True), (1, 1, False)]"
    unfolding e
    by (simp_all add: tick_running [OF engine_inv_start [OF engine_inv_init] st(1)] st)
  note th = C5_stop_cancels [OF refl p(1)]
  have f: "\<forall>c \<in> set [Tick, Fire 2, Fire 1, Tick]. firing c" by simp
  have a: "timers (stop ?s) = []" using th by blast
  have b: "beatCount (stop ?s) = 1" using th p(2) by simp
  have c: "run [Tick, Fire 2, Fire 1, Tick] (stop ?s) = stop ?s" using th f by blast
  have d: "played (stop ?s) = [(0, 0, True), (1, 1, False)]" using th p(3) by simp
  show ?thesis using p(1) a b unfolding c d by simp
qed

section \<open>The tuning tracker: hold and lock\<close>

lemma closest_scan_in_set: "closest_scan f c m ss \<in> insert c (set ss)"
  by (induction ss arbitrary: c m) (auto simp: Let_def)

lemma closest_in_set: "closest_string guitarStrings0 f \<in> set guitarStrings0"
proof -
  have "closest_string guitarStrings0 f \<in> insert (hd guitarStrings0) (set guitarStrings0)"
    unfolding closest_string_def by (rule closest_scan_in_set)
  moreover have "hd guitarStrings0 \<in> set guitarStrings0" by (simp add: guitarStrings0_def)
  ultimately show ?thesis by auto
qed

lemma name_nonempty: "R \<in> set guitarStrings0 \<Longrightarrow> name R \<noteq> []"
  by (auto simp: guitarStrings0_def)

lemma update_unpublished:
  assumes "centsValue f (closest_string guitarStrings0 f) = None
           \<or> (\<exists>c. centsValue f (closest_string guitarStrings0 f) = Some c \<and> 50 < \<bar>c\<bar>)"
  shows "updateTuningInfo f now s = s"
  using assms by (auto simp: updateTuningInfo_def Let_def)

lemma update_new_note:
  assumes "centsValue f (closest_string guitarStrings0 f) = Some c" and "\<bar>c\<bar> \<le> 50"
    and "lastNoteRef s \<noteq> name (closest_string guitarStrings0 f)"
  shows "updateTuningInfo f now s
           = s\<lparr>lastNoteRef := name (closest_string guitarStrings0 f), noteHoldTimeRef := now,
               currentNote := name (closest_string guitarStrings0 f), cents := c\<rparr>"
  using assms by (simp add: updateTuningInfo_def Let_def)

lemma update_same_note_lock:
  assumes "centsValue f (closest_string guitarStrings0 f) = Some c" and "\<bar>c\<bar> \<le> 5"
    and "lastNoteRef s = name (closest_string guitarStrings0 f)"
    and "now - noteHoldTimeRef s \<ge> 2000"
  shows "updateTuningInfo f now s
           = s\<lparr>guitarStrings :=
                 map (\<lambda>str. if name str = name (closest_string guitarStrings0 f)
                             then str\<lparr>tuned := True\<rparr> else str) (guitarStrings s),
               currentNote := name (closest_string guitarStrings0 f), cents := c\<rparr>"
  using assms by (simp add: updateTuningInfo_def Let_def)

lemma update_same_note_hold:
  assumes "centsValue f (closest_string guitarStrings0 f) = Some c" and "\<bar>c\<bar> \<le> 50"
    and "lastNoteRef s = name (closest_string guitarStrings0 f)"
    and "\<not> (\<bar>c\<bar> \<le> 5 \<and> now - noteHoldTimeRef s \<ge> 2000)"
  shows "updateTuningInfo f now s
           = s\<lparr>currentNote := name (closest_string guitarStrings0 f), cents := c\<rparr>"
  using assms by (auto simp: updateTuningInfo_def Let_def)

lemma update_strings_cases:
  "guitarStrings (updateTuningInfo f now s) = guitarStrings s
   \<or> ((\<exists>c. centsValue f (closest_string guitarStrings0 f) = Some c \<and> \<bar>c\<bar> \<le> 5)
      \<and> lastNoteRef s = name (closest_string guitarStrings0 f)
      \<and> now - noteHoldTimeRef s \<ge> 2000
      \<and> guitarStrings (updateTuningInfo f now s)
          = map (\<lambda>str. if name str = name (closest_string guitarStrings0 f)
                        then str\<lparr>tuned := True\<rparr> else str) (guitarStrings s))"
  by (auto simp: updateTuningInfo_def Let_def split: option.splits)

lemma update_length: "length (guitarStrings (updateTuningInfo f now s)) = length (guitarStrings s)"
  using update_strings_cases [of f now s] by auto

lemma update_names:
  "map name (guitarStrings (updateTuningInfo f now s)) = map name (guitarStrings s)"
  using update_strings_cases [of f now s] by (auto simp: comp_def intro: map_cong)

lemma update_freqs:
  "map freq (guitarStrings (updateTuningInfo f now s)) = map freq (guitarStrings s)"
  using update_strings_cases [of f now s] by (auto simp: comp_def intro: map_cong)

lemma update_tuned_mono:
  assumes "i < length (guitarStrings s)" and "tuned (guitarStrings s ! i)"
  shows "tuned (guitarStrings (updateTuningInfo f now s) ! i)"
  using update_strings_cases [of f now s] assms by auto

lemma update_tuned_new:
  assumes "i < length (guitarStrings s)" and "\<not> tuned (guitarStrings s ! i)"
    and "tuned (guitarStrings (updateTuningInfo f now s) ! i)"
  shows "(\<exists>c. centsValue f (closest_string guitarStrings0 f) = Some c \<and> \<bar>c\<bar> \<le> 5)
      \<and> lastNoteRef s = name (closest_string guitarStrings0 f)
      \<and> name (guitarStrings s ! i) = name (closest_string guitarStrings0 f)
      \<and> now - noteHoldTimeRef s \<ge> 2000"
  using update_strings_cases [of f now s] assms by (auto split: if_splits)

lemma update_hold_start:
  "noteHoldTimeRef (updateTuningInfo f now s)
     = (if (\<exists>c. centsValue f (closest_string guitarStrings0 f) = Some c \<and> \<bar>c\<bar> \<le> 50)
           \<and> lastNoteRef s \<noteq> name (closest_string guitarStrings0 f)
        then now else noteHoldTimeRef s)"
  by (auto simp: updateTuningInfo_def Let_def split: option.splits)

lemma cents_exact0: "R \<in> set guitarStrings0 \<Longrightarrow> centsValue (freq R) R = Some 0"
  by (auto simp: guitarStrings0_def centsValue_def Math_log2_def Math_round_def)

lemma closest_exact: "R \<in> set guitarStrings0 \<Longrightarrow> closest_string guitarStrings0 (freq R) = R"
proof -
  assume R: "R \<in> set guitarStrings0"
  have "0 < freq R" using R by (rule freq_pos)
  then have "97 / 100 * freq R \<le> freq R" "freq R \<le> 103 / 100 * freq R" by simp_all
  with R show ?thesis by (rule closest_near)
qed

lemma in_tune_exact: "R \<in> set guitarStrings0 \<Longrightarrow> in_tune R (freq R)"
  by (simp add: in_tune_def closest_exact cents_exact0)

lemma run_updates_append: "run_updates (us @ vs) s = run_updates vs (run_updates us s)"
  by (induction us arbitrary: s) auto

lemma in_tune_update_hold:
  assumes it: "in_tune R f" and ln: "lastNoteRef s = name R"
    and early: "now - noteHoldTimeRef s < 2000"
  shows "\<exists>c. updateTuningInfo f now s = s\<lparr>currentNote := name R, cents := c\<rparr>"
proof -
  obtain c where c: "centsValue f R = Some c" "\<bar>c\<bar> \<le> 5"
    using it by (auto simp: in_tune_def split: option.splits)
  have cl: "closest_string guitarStrings0 f = R" using it by (simp add: in_tune_def)
  have "updateTuningInfo f now s = s\<lparr>currentNote := name R, cents := c\<rparr>"
    using update_same_note_hold [of f c s now] c cl ln early by simp
  then show ?thesis by blast
qed

lemma in_tune_update_lock:
  assumes it: "in_tune R f" and ln: "lastNoteRef s = name R"
    and late: "2000 \<le> now - noteHoldTimeRef s"
  shows "guitarStrings (updateTuningInfo f now s)
           = map (\<lambda>str. if name str = name R then str\<lparr>tuned := True\<rparr> else str) (guitarStrings s)"
proof -
  obtain c where c: "centsValue f R = Some c" "\<bar>c\<bar> \<le> 5"
    using it by (auto simp: in_tune_def split: option.splits)
  have cl: "closest_string guitarStrings0 f = R" using it by (simp add: in_tune_def)
  show ?thesis
    using update_same_note_lock [of f c s now] c cl ln late by simp
qed

lemma in_tune_update_first:
  assumes it: "in_tune R f" and ln: "lastNoteRef s \<noteq> name R"
  shows "\<exists>c. updateTuningInfo f now s
           = s\<lparr>lastNoteRef := name R, noteHoldTimeRef := now, currentNote := name R, cents := c\<rparr>"
proof -
  obtain c where c: "centsValue f R = Some c" "\<bar>c\<bar> \<le> 5"
    using it by (auto simp: in_tune_def split: option.splits)
  have cl: "closest_string guitarStrings0 f = R" using it by (simp add: in_tune_def)
  have "updateTuningInfo f now s
           = s\<lparr>lastNoteRef := name R, noteHoldTimeRef := now, currentNote := name R, cents := c\<rparr>"
    using update_new_note [of f c s now] c cl ln by simp
  then show ?thesis by blast
qed

lemma sustained_no_lock:
  assumes "lastNoteRef s = name R" and "noteHoldTimeRef s = t0"
    and "\<forall>(f, t) \<in> set us. in_tune R f \<and> t - t0 < 2000"
  shows "lastNoteRef (run_updates us s) = name R \<and> noteHoldTimeRef (run_updates us s) = t0
    \<and> guitarStrings (run_updates us s) = guitarStrings s"
  using assms
proof (induction us arbitrary: s)
  case Nil
  then show ?case by simp
next
  case (Cons u us)
  obtain f t where u: "u = (f, t)" by (cases u) auto
  have it: "in_tune R f" and early: "t - noteHoldTimeRef s < 2000"
    using Cons.prems u by auto
  obtain c where st: "updateTuningInfo f t s = s\<lparr>currentNote := name R, cents := c\<rparr>"
    using in_tune_update_hold [OF it Cons.prems(1) early] by blast
  have rest: "\<forall>(f, t) \<in> set us. in_tune R f \<and> t - t0 < 2000" using Cons.prems(3) by simp
  have "lastNoteRef (run_updates us (updateTuningInfo f t s)) = name R
      \<and> noteHoldTimeRef (run_updates us (updateTuningInfo f t s)) = t0
      \<and> guitarStrings (run_updates us (updateTuningInfo f t s))
          = guitarStrings (updateTuningInfo f t s)"
    by (rule Cons.IH) (simp_all add: st Cons.prems(1,2) rest)
  then show ?case by (simp add: u st)
qed

lemma fresh_sustained:
  assumes R: "R \<in> set guitarStrings0" and first: "in_tune R f0"
    and rest: "\<forall>(f, t) \<in> set us. in_tune R f \<and> t - t0 < 2000"
  shows "lastNoteRef (run_updates ((f0, t0) # us) Tuner0) = name R"
    and "noteHoldTimeRef (run_updates ((f0, t0) # us) Tuner0) = t0"
    and "guitarStrings (run_updates ((f0, t0) # us) Tuner0) = guitarStrings0"
proof -
  have "lastNoteRef Tuner0 \<noteq> name R" using name_nonempty [OF R] by (simp add: Tuner0_def)
  then obtain c where st: "updateTuningInfo f0 t0 Tuner0
      = Tuner0\<lparr>lastNoteRef := name R, noteHoldTimeRef := t0, currentNote := name R, cents := c\<rparr>"
    using in_tune_update_first [OF first] by blast
  have "lastNoteRef (run_updates us (updateTuningInfo f0 t0 Tuner0)) = name R
      \<and> noteHoldTimeRef (run_updates us (updateTuningInfo f0 t0 Tuner0)) = t0
      \<and> guitarStrings (run_updates us (updateTuningInfo f0 t0 Tuner0))
          = guitarStrings (updateTuningInfo f0 t0 Tuner0)"
    using rest by (intro sustained_no_lock) (simp_all add: st)
  moreover have "guitarStrings (updateTuningInfo f0 t0 Tuner0) = guitarStrings0"
    unfolding st by (simp add: Tuner0_def)
  moreover have "run_updates ((f0, t0) # us) Tuner0
      = run_updates us (updateTuningInfo f0 t0 Tuner0)" by simp
  ultimately show "lastNoteRef (run_updates ((f0, t0) # us) Tuner0) = name R"
    and "noteHoldTimeRef (run_updates ((f0, t0) # us) Tuner0) = t0"
    and "guitarStrings (run_updates ((f0, t0) # us) Tuner0) = guitarStrings0"
    by (simp_all only:)
qed

lemma fresh_sustained_lock:
  assumes R: "R \<in> set guitarStrings0" and first: "in_tune R f0"
    and rest: "\<forall>(f, t) \<in> set us. in_tune R f \<and> t - t0 < 2000"
    and last: "in_tune R f1" and late: "2000 \<le> t1 - t0"
  shows "guitarStrings (run_updates ((f0, t0) # us @ [(f1, t1)]) Tuner0)
           = map (\<lambda>str. if name str = name R then str\<lparr>tuned := True\<rparr> else str) guitarStrings0"
proof -
  let ?s = "run_updates ((f0, t0) # us) Tuner0"
  note fs = fresh_sustained [OF R first rest]
  have "run_updates ((f0, t0) # us @ [(f1, t1)]) Tuner0 = updateTuningInfo f1 t1 ?s"
    using run_updates_append [of "(f0, t0) # us" "[(f1, t1)]" Tuner0] by simp
  moreover have "guitarStrings (updateTuningInfo f1 t1 ?s)
           = map (\<lambda>str. if name str = name R then str\<lparr>tuned := True\<rparr> else str) (guitarStrings ?s)"
    using last fs(1) by (rule in_tune_update_lock) (simp only: fs(2) late)
  ultimately show ?thesis by (simp only: fs(3))
qed

lemma root_le:
  assumes n: "0 < n" and x: "0 \<le> x" and p: "2 \<le> x ^ n"
  shows "2 powr (1 / real n) \<le> (x::real)"
proof (rule ccontr)
  assume "\<not> 2 powr (1 / real n) \<le> x"
  then have "x < 2 powr (1 / real n)" by simp
  then have "x ^ n < (2 powr (1 / real n)) ^ n"
    using x n by (intro power_strict_mono) simp_all
  moreover have "((2::real) powr (1 / real n)) ^ n = 2"
    using n by (simp add: powr_power)
  ultimately show False using p by simp
qed

lemma le_root:
  assumes n: "0 < n" and x: "0 \<le> x" and p: "x ^ n \<le> 2"
  shows "(x::real) \<le> 2 powr (1 / real n)"
proof (rule ccontr)
  assume "\<not> x \<le> 2 powr (1 / real n)"
  then have "2 powr (1 / real n) < x" by simp
  then have "(2 powr (1 / real n)) ^ n < x ^ n"
    using n by (intro power_strict_mono) simp_all
  moreover have "((2::real) powr (1 / real n)) ^ n = 2"
    using n by (simp add: powr_power)
  ultimately show False using p by simp
qed

lemma Math_round_le: "x \<le> real_of_int k \<Longrightarrow> Math_round x \<le> k"
  by (simp add: Math_round_def floor_le_iff)

lemma le_Math_round: "real_of_int k \<le> x \<Longrightarrow> k \<le> Math_round x"
  by (simp add: Math_round_def le_floor_iff)

lemma log_199_bounds:
  "12 \<le> 1200 * log 2 (199 / 196)" "1200 * log 2 (199 / 196) \<le> (50::real)"
proof -
  have a: "(2::real) powr (1 / real 100) \<le> 199 / 196"
    by (rule root_le) (simp_all add: power_divide)
  have "1 / real 100 \<le> log 2 (199 / 196 :: real)"
    using a by (subst le_log_iff) simp_all
  then show "12 \<le> 1200 * log 2 (199 / 196)" by simp
  have b: "(199 / 196 :: real) \<le> 2 powr (1 / real 24)"
    by (rule le_root) (simp_all add: power_divide)
  have "log 2 (199 / 196 :: real) \<le> 1 / real 24"
    using b by (subst log_le_iff) simp_all
  then show "1200 * log 2 (199 / 196) \<le> (50::real)" by simp
qed

lemma cents_199:
  obtains c where "centsValue 199 (guitarStrings0 ! 3) = Some c" and "12 \<le> c" and "c \<le> 50"
proof -
  let ?c = "Math_round (1200 * log 2 (199 / 196))"
  have "centsValue 199 (guitarStrings0 ! 3) = Some ?c"
    by (simp add: centsValue_def Math_log2_def guitarStrings0_def)
  moreover have "12 \<le> ?c" by (rule le_Math_round) (simp add: log_199_bounds(1))
  moreover have "?c \<le> 50" by (rule Math_round_le) (simp add: log_199_bounds(2))
  ultimately show ?thesis using that by blast
qed

lemma G_mem: "guitarStrings0 ! 3 \<in> set guitarStrings0"
  and E_low_mem: "guitarStrings0 ! 0 \<in> set guitarStrings0"
  and E_high_mem: "guitarStrings0 ! 5 \<in> set guitarStrings0"
  by (simp_all add: guitarStrings0_def)

lemma string_fields:
  "freq (guitarStrings0 ! 3) = 196" "name (guitarStrings0 ! 3) = ''G''"
  "freq (guitarStrings0 ! 0) = 8241 / 100" "name (guitarStrings0 ! 0) = ''E''"
  "freq (guitarStrings0 ! 5) = 32963 / 100" "name (guitarStrings0 ! 5) = ''E''"
  by (simp_all add: guitarStrings0_def)

lemma closest_199: "closest_string guitarStrings0 199 = guitarStrings0 ! 3"
  by (rule closest_near [OF G_mem]) (simp_all add: string_fields)

lemma closest_196: "closest_string guitarStrings0 196 = guitarStrings0 ! 3"
  using closest_exact [OF G_mem] by (simp add: string_fields)

lemma cents_196: "centsValue 196 (guitarStrings0 ! 3) = Some 0"
  using cents_exact0 [OF G_mem] by (simp add: string_fields)

lemma out_of_tune_between:
  "tuned (guitarStrings (run_updates [(196, 0), (199, 1000), (196, 2000)] Tuner0) ! 3)"
  "5 < cents (run_updates [(196, 0), (199, 1000)] Tuner0)"
  "\<not> tuned (guitarStrings (run_updates [(196, 0), (199, 1000)] Tuner0) ! 3)"
proof -
  obtain c where c: "centsValue 199 (guitarStrings0 ! 3) = Some c" "12 \<le> c" "c \<le> 50"
    by (rule cents_199)
  let ?s1 = "updateTuningInfo 196 0 Tuner0"
  let ?s2 = "updateTuningInfo 199 1000 ?s1"
  let ?s3 = "updateTuningInfo 196 2000 ?s2"
  have s1: "?s1 = Tuner0\<lparr>lastNoteRef := ''G'', noteHoldTimeRef := 0, currentNote := ''G'',
      cents := 0\<rparr>"
    using update_new_note [of 196 0 Tuner0 0]
    by (simp add: closest_196 cents_196 string_fields) (simp add: Tuner0_def)
  have l1: "lastNoteRef ?s1 = ''G''" "noteHoldTimeRef ?s1 = 0" "guitarStrings ?s1 = guitarStrings0"
    unfolding s1 by (simp_all add: Tuner0_def)
  have s2: "?s2 = ?s1\<lparr>currentNote := ''G'', cents := c\<rparr>"
    using update_same_note_hold [of 199 c ?s1 1000] c l1
    by (simp add: closest_199 string_fields)
  have l2: "lastNoteRef ?s2 = ''G''" "noteHoldTimeRef ?s2 = 0"
    "guitarStrings ?s2 = guitarStrings0" "cents ?s2 = c"
    unfolding s2 by (simp_all add: l1)
  have s3: "guitarStrings ?s3
      = map (\<lambda>str. if name str = ''G'' then str\<lparr>tuned := True\<rparr> else str) guitarStrings0"
    using update_same_note_lock [of 196 0 ?s2 2000] l2
    by (simp add: closest_196 cents_196 string_fields)
  have "tuned (guitarStrings ?s3 ! 3)" unfolding s3 by (simp add: guitarStrings0_def)
  then show "tuned (guitarStrings (run_updates [(196, 0), (199, 1000), (196, 2000)] Tuner0) ! 3)"
    by simp
  show "5 < cents (run_updates [(196, 0), (199, 1000)] Tuner0)" using c l2(4) by simp
  have "\<not> tuned (guitarStrings ?s2 ! 3)" unfolding l2(3) by (simp add: guitarStrings0_def)
  then show "\<not> tuned (guitarStrings (run_updates [(196, 0), (199, 1000)] Tuner0) ! 3)"
    by simp
qed

lemma low_then_high_E:
  "lastNoteRef (run_updates [(8241 / 100, t), (32963 / 100, t')] Tuner0) = ''E''"
  "noteHoldTimeRef (run_updates [(8241 / 100, t), (32963 / 100, t')] Tuner0) = t"
  "2000 \<le> t' - t \<Longrightarrow>
     guitarStrings (run_updates [(8241 / 100, t), (32963 / 100, t')] Tuner0)
       = map (\<lambda>str. if name str = ''E'' then str\<lparr>tuned := True\<rparr> else str) guitarStrings0"
proof -
  let ?s1 = "updateTuningInfo (8241 / 100) t Tuner0"
  let ?s2 = "updateTuningInfo (32963 / 100) t' ?s1"
  have cl0: "closest_string guitarStrings0 (8241 / 100) = guitarStrings0 ! 0"
    using closest_exact [OF E_low_mem] by (simp add: string_fields)
  have ce0: "centsValue (8241 / 100) (guitarStrings0 ! 0) = Some 0"
    using cents_exact0 [OF E_low_mem] by (simp add: string_fields)
  have cl5: "closest_string guitarStrings0 (32963 / 100) = guitarStrings0 ! 5"
    using closest_exact [OF E_high_mem] by (simp add: string_fields)
  have ce5: "centsValue (32963 / 100) (guitarStrings0 ! 5) = Some 0"
    using cents_exact0 [OF E_high_mem] by (simp add: string_fields)
  have s1: "?s1 = Tuner0\<lparr>lastNoteRef := ''E'', noteHoldTimeRef := t, currentNote := ''E'',
      cents := 0\<rparr>"
    using update_new_note [of "8241 / 100" 0 Tuner0 t]
    by (simp add: cl0 ce0 string_fields) (simp add: Tuner0_def)
  have l1: "lastNoteRef ?s1 = ''E''" "noteHoldTimeRef ?s1 = t" "guitarStrings ?s1 = guitarStrings0"
    unfolding s1 by (simp_all add: Tuner0_def)
  have same: "lastNoteRef ?s1 = name (closest_string guitarStrings0 (32963 / 100))"
    by (simp add: l1 cl5 string_fields)
  have h: "noteHoldTimeRef ?s2 = t" "lastNoteRef ?s2 = ''E''"
    using same l1 by (simp_all add: updateTuningInfo_def Let_def cl5 ce5 string_fields)
  show "lastNoteRef (run_updates [(8241 / 100, t), (32963 / 100, t')] Tuner0) = ''E''"
    using h by simp
  show "noteHoldTimeRef (run_updates [(8241 / 100, t), (32963 / 100, t')] Tuner0) = t"
    using h by simp
  show "guitarStrings (run_updates [(8241 / 100, t), (32963 / 100, t')] Tuner0)
       = map (\<lambda>str. if name str = ''E'' then str\<lparr>tuned := True\<rparr> else str) guitarStrings0"
    if "2000 \<le> t' - t"
    using update_same_note_lock [of "32963 / 100" 0 ?s1 t'] that l1
    by (simp add: cl5 ce5 string_fields)
qed




lemma names0: "map name guitarStrings0 = [''E'', ''A'', ''D'', ''G'', ''B'', ''E'']"
  by (simp add: guitarStrings0_def)

lemma freqs0:
  "map freq guitarStrings0 = [8241 / 100, 110, 14683 / 100, 196, 24694 / 100, 32963 / 100]"
  by (simp add: guitarStrings0_def)

lemma names_E:
  assumes "map name gs = map name guitarStrings0"
  shows "length gs = 6" and "name (gs ! 0) = ''E''" and "name (gs ! 5) = ''E''"
proof -
  have l: "length gs = length guitarStrings0" using assms by (rule map_eq_imp_length_eq)
  then show len: "length gs = 6" by (simp add: guitarStrings0_def)
  have "name (gs ! 0) = map name gs ! 0" using len by simp
  then show "name (gs ! 0) = ''E''" unfolding assms names0 by simp
  have "name (gs ! 5) = map name gs ! 5" using len by simp
  then show "name (gs ! 5) = ''E''" unfolding assms names0 by simp
qed

lemma update_E_pair:
  assumes n: "map name (guitarStrings s) = map name guitarStrings0"
    and p: "tuned (guitarStrings s ! 0) = tuned (guitarStrings s ! 5)"
  shows "tuned (guitarStrings (updateTuningInfo f now s) ! 0)
       = tuned (guitarStrings (updateTuningInfo f now s) ! 5)"
proof -
  note e = names_E [OF n]
  show ?thesis
    using update_strings_cases [of f now s] p e by (auto split: if_splits)
qed

lemma detectPitch_tuner_cases:
  "tuner (detectPitch p c now d) = tuner d
   \<or> (\<exists>f. tuner (detectPitch p c now d) = updateTuningInfo f now (tuner d))
   \<or> tuner (detectPitch p c now d) = (tuner d)\<lparr>currentNote := [], cents := 0\<rparr>"
  by (auto simp: detectPitch_def Let_def)

lemma strings_inv_update: "strings_inv s \<Longrightarrow> strings_inv (updateTuningInfo f now s)"
  unfolding strings_inv_def
  using update_names [of f now s] update_freqs [of f now s] update_E_pair [of s f now]
  by simp

lemma strings_inv_detectPitch:
  assumes "strings_inv (tuner d)"
  shows "strings_inv (tuner (detectPitch p c now d))"
  using detectPitch_tuner_cases [of p c now d] assms strings_inv_update [OF assms]
  by (auto simp: strings_inv_def)

lemma strings_inv_run_frames:
  "strings_inv (tuner d) \<Longrightarrow> strings_inv (tuner (run_frames fs d))"
proof (induction fs arbitrary: d)
  case Nil
  then show ?case by simp
next
  case (Cons fr fs)
  obtain p c now where fr: "fr = (p, c, now)" by (cases fr) auto
  show ?case unfolding fr run_frames.simps
    by (rule Cons.IH) (rule strings_inv_detectPitch [OF Cons.prems])
qed

lemma strings_inv_reachable: "strings_inv (tuner (run_frames fs Detector0))"
proof (rule strings_inv_run_frames)
  have "tuned (guitarStrings0 ! 0) = tuned (guitarStrings0 ! 5)" by (simp add: guitarStrings0_def)
  then show "strings_inv (tuner Detector0)"
    by (simp add: strings_inv_def Detector0_def Tuner0_def)
qed

lemma update_marks_all:
  assumes i: "i < length (guitarStrings s)" and j: "j < length (guitarStrings s)"
    and same: "name (guitarStrings s ! i) = name (guitarStrings s ! j)"
    and n: "\<not> tuned (guitarStrings s ! i)"
    and t: "tuned (guitarStrings (updateTuningInfo f now s) ! i)"
  shows "tuned (guitarStrings (updateTuningInfo f now s) ! j)"
  using update_strings_cases [of f now s] assms by (auto split: if_splits)

lemma update_same_name_keeps_hold:
  assumes "name (closest_string guitarStrings0 f) = lastNoteRef s"
  shows "noteHoldTimeRef (updateTuningInfo f now s) = noteHoldTimeRef s"
    and "lastNoteRef (updateTuningInfo f now s) = lastNoteRef s"
  using assms by (auto simp: updateTuningInfo_def Let_def split: option.splits)

text \<open>
  Claim C9. In every state of the tuner the six entries keep their names and frequencies,
  the first and the last both named E, and these two carry the same tuned flag. An update
  that newly marks an entry marks every entry of the same name. An update whose matched
  reference has the name matched last leaves the hold-start timestamp as it is, whichever
  entry of that name it matched: a reading of the low E at \<open>t\<close> and then one of the high E
  at \<open>t'\<close> leave the timestamp at \<open>t\<close>, and mark both when \<open>t'\<close> is 2000 ms or more
  after \<open>t\<close>.
\<close>

theorem C9_strings_by_name:
  assumes s: "s = tuner (run_frames fs Detector0)"
  shows "map name (guitarStrings s) = [''E'', ''A'', ''D'', ''G'', ''B'', ''E'']
    \<and> map freq (guitarStrings s) = [8241 / 100, 110, 14683 / 100, 196, 24694 / 100, 32963 / 100]
    \<and> tuned (guitarStrings s ! 0) = tuned (guitarStrings s ! 5)
    \<and> (\<forall>i < length (guitarStrings s). \<forall>j < length (guitarStrings s).
          name (guitarStrings s ! i) = name (guitarStrings s ! j)
          \<and> \<not> tuned (guitarStrings s ! i)
          \<and> tuned (guitarStrings (updateTuningInfo f now s) ! i)
          \<longrightarrow> tuned (guitarStrings (updateTuningInfo f now s) ! j))
    \<and> (name (closest_string guitarStrings0 f) = lastNoteRef s \<longrightarrow>
          noteHoldTimeRef (updateTuningInfo f now s) = noteHoldTimeRef s
          \<and> lastNoteRef (updateTuningInfo f now s) = lastNoteRef s)
    \<and> closest_string guitarStrings0 (8241 / 100) = guitarStrings0 ! 0
    \<and> closest_string guitarStrings0 (32963 / 100) = guitarStrings0 ! 5
    \<and> guitarStrings0 ! 0 \<noteq> guitarStrings0 ! 5
    \<and> noteHoldTimeRef (run_updates [(8241 / 100, t), (32963 / 100, t')] Tuner0) = t
    \<and> (2000 \<le> t' - t \<longrightarrow>
          tuned (guitarStrings (run_updates [(8241 / 100, t), (32963 / 100, t')] Tuner0) ! 0)
          \<and> tuned (guitarStrings (run_updates [(8241 / 100, t), (32963 / 100, t')] Tuner0) ! 5))"
proof -
  have inv: "strings_inv s" unfolding s by (rule strings_inv_reachable)
  have 1: "map name (guitarStrings s) = [''E'', ''A'', ''D'', ''G'', ''B'', ''E'']"
    using inv by (simp add: strings_inv_def names0)
  have 2: "map freq (guitarStrings s)
      = [8241 / 100, 110, 14683 / 100, 196, 24694 / 100, 32963 / 100]"
    using inv by (simp add: strings_inv_def freqs0)
  have 3: "tuned (guitarStrings s ! 0) = tuned (guitarStrings s ! 5)"
    using inv by (simp add: strings_inv_def)
  have 4: "\<forall>i < length (guitarStrings s). \<forall>j < length (guitarStrings s).
          name (guitarStrings s ! i) = name (guitarStrings s ! j)
          \<and> \<not> tuned (guitarStrings s ! i)
          \<and> tuned (guitarStrings (updateTuningInfo f now s) ! i)
          \<longrightarrow> tuned (guitarStrings (updateTuningInfo f now s) ! j)"
    using update_marks_all [of _ s _ f now] by blast
  have 5: "name (closest_string guitarStrings0 f) = lastNoteRef s \<longrightarrow>
          noteHoldTimeRef (updateTuningInfo f now s) = noteHoldTimeRef s
          \<and> lastNoteRef (updateTuningInfo f now s) = lastNoteRef s"
    using update_same_name_keeps_hold [of f s now] by blast
  have 6: "closest_string guitarStrings0 (8241 / 100) = guitarStrings0 ! 0"
    using closest_exact [OF E_low_mem] by (simp add: string_fields)
  have 7: "closest_string guitarStrings0 (32963 / 100) = guitarStrings0 ! 5"
    using closest_exact [OF E_high_mem] by (simp add: string_fields)
  have "freq (guitarStrings0 ! 0) \<noteq> freq (guitarStrings0 ! 5)" by (simp add: string_fields)
  then have 8: "guitarStrings0 ! 0 \<noteq> guitarStrings0 ! 5" by auto
  have 9: "noteHoldTimeRef (run_updates [(8241 / 100, t), (32963 / 100, t')] Tuner0) = t"
    by (rule low_then_high_E(2))
  have 10: "tuned (guitarStrings (run_updates [(8241 / 100, t), (32963 / 100, t')] Tuner0) ! 0)
          \<and> tuned (guitarStrings (run_updates [(8241 / 100, t), (32963 / 100, t')] Tuner0) ! 5)"
    if "2000 \<le> t' - t"
    unfolding low_then_high_E(3) [OF that] by (simp add: guitarStrings0_def)
  show ?thesis using 1 2 3 4 5 6 7 8 9 10 by blast
qed

theorem C9_strings_by_name_witness:
  "tuned (guitarStrings (tuner (run_frames [(100, 9 / 10, 0)] Detector0)) ! 0)
     = tuned (guitarStrings (tuner (run_frames [(100, 9 / 10, 0)] Detector0)) ! 5)
   \<and> noteHoldTimeRef (run_updates [(8241 / 100, 0), (32963 / 100, 2000)] Tuner0) = 0
   \<and> tuned (guitarStrings (run_updates [(8241 / 100, 0), (32963 / 100, 2000)] Tuner0) ! 0)
   \<and> tuned (guitarStrings (run_updates [(8241 / 100, 0), (32963 / 100, 2000)] Tuner0) ! 5)"
proof -
  note th = C9_strings_by_name [OF refl, of "[(100, 9 / 10, 0)]" 100 0 0 2000]
  have a: "tuned (guitarStrings (tuner (run_frames [(100, 9 / 10, 0)] Detector0)) ! 0)
     = tuned (guitarStrings (tuner (run_frames [(100, 9 / 10, 0)] Detector0)) ! 5)"
    using th by blast
  have b: "noteHoldTimeRef (run_updates [(8241 / 100, 0), (32963 / 100, 2000)] Tuner0) = 0"
    using th by blast
  have l: "(2000::int) \<le> 2000 - 0" by simp
  have c: "tuned (guitarStrings (run_updates [(8241 / 100, 0), (32963 / 100, 2000)] Tuner0) ! 0)
   \<and> tuned (guitarStrings (run_updates [(8241 / 100, 0), (32963 / 100, 2000)] Tuner0) ! 5)"
    using th l by blast
  show ?thesis using a b c by blast
qed

section \<open>The two engines in one session\<close>

lemma legacy_timer:
  assumes "engines_agree n l"
  obtains t where "timers_legacy l = [t]" and "intervalId_legacy l = Some (itimer_id t)"
    and "0 < itimer_id t" and "itimer_delay t = Some (60000 / bpm_legacy l)"
  using assms by (auto simp: engines_agree_def split: list.splits)

lemma agree_start:
  assumes b: "40 \<le> b" "b \<le> 300"
  shows "engines_agree (start (setBPM b MetronomeSound0))
           (start_legacy (setBPM_legacy b LegacyMetronome0))"
proof -
  have i0: "\<not> isPlaying MetronomeSound0" by (simp add: MetronomeSound0_def)
  have s1: "setBPM b MetronomeSound0 = MetronomeSound0\<lparr>bpm := b\<rparr>"
    using setBPM_idle [OF engine_inv_init i0, of b] b by simp
  have inv1: "engine_inv (setBPM b MetronomeSound0)"
    using engine_inv_init by (rule engine_inv_setBPM)
  have i1: "\<not> isPlaying (setBPM b MetronomeSound0)" by (simp add: s1 i0)
  have l1: "setBPM_legacy b LegacyMetronome0 = LegacyMetronome0\<lparr>bpm_legacy := b\<rparr>"
    by (simp add: setBPM_legacy_def LegacyMetronome0_def)
  have nz: "b \<noteq> 0" using b by simp
  have l2: "start_legacy (LegacyMetronome0\<lparr>bpm_legacy := b\<rparr>)
      = LegacyMetronome0\<lparr>bpm_legacy := b, isPlaying_legacy := True, currentBeat_legacy := 1,
          played_legacy := [(0, True)],
          timers_legacy := [\<lparr>itimer_id = 1, itimer_delay = Some (60000 / b)\<rparr>],
          nextTimerId_legacy := 2, intervalId_legacy := Some 1\<rparr>"
    using nz
    by (simp add: start_legacy_def playBeat_legacy_def setInterval_legacy_def interval_of_def
        LegacyMetronome0_def js_rem_def Let_def)
  have f: "bpm (setBPM b MetronomeSound0) = b" "played (setBPM b MetronomeSound0) = []"
    unfolding s1 by (simp_all add: MetronomeSound0_def)
  show ?thesis
    unfolding start_idle [OF inv1 i1] l1 l2
    by (simp add: engines_agree_def f LegacyMetronome0_def)
qed

lemma agree_tick:
  assumes inv: "engine_inv n" and a: "engines_agree n l"
  shows "engines_agree (tick n) (tick_legacy l)"
proof -
  have run: "isPlaying n" using a by (simp add: engines_agree_def)
  obtain t where t: "timers_legacy l = [t]" using legacy_timer [OF a] by metis
  have c: "0 \<le> beatCount n + 1" "0 \<le> (beatCount n + 1) mod 4 + 1"
    using a by (simp_all add: engines_agree_def)
  have tl: "tick_legacy l
      = l\<lparr>played_legacy := played_legacy l @ [(currentBeat_legacy l, currentBeat_legacy l = 0)],
          currentBeat_legacy := (currentBeat_legacy l + 1) mod 4\<rparr>"
    using t a js_rem_nonneg [OF c(2)]
    by (simp add: tick_legacy_def fire_legacy_def playBeat_legacy_def Let_def engines_agree_def)
  have m: "((beatCount n + 1) mod 4 + 1) mod 4 = (beatCount n + 1 + 1) mod 4"
    by (simp add: mod_add_left_eq)
  show ?thesis
    unfolding tick_running [OF inv run] tl
    using a t m by (simp add: engines_agree_def)
qed

lemma agree_setBPM:
  assumes inv: "engine_inv n" and a: "engines_agree n l" and b: "40 \<le> b" "b \<le> 300"
  shows "engines_agree (setBPM b n) (setBPM_legacy b l)"
proof -
  have run: "isPlaying n" using a by (simp add: engines_agree_def)
  obtain t where t: "timers_legacy l = [t]" "intervalId_legacy l = Some (itimer_id t)"
    "0 < itimer_id t"
    using legacy_timer [OF a] by metis
  have nz: "b \<noteq> 0" using b by simp
  have cl: "min (max b 40) 300 = b" using b by simp
  have runl: "isPlaying_legacy l" using a by (simp add: engines_agree_def)
  have sl: "setBPM_legacy b l
      = l\<lparr>bpm_legacy := b,
          timers_legacy := [\<lparr>itimer_id = nextTimerId_legacy l, itimer_delay = Some (60000 / b)\<rparr>],
          nextTimerId_legacy := nextTimerId_legacy l + 1,
          intervalId_legacy := Some (nextTimerId_legacy l)\<rparr>"
    using t nz runl
    by (simp add: setBPM_legacy_def clearInterval_legacy_def setInterval_legacy_def
        interval_of_def Let_def)
  show ?thesis
    unfolding setBPM_running [OF inv run] sl cl
    using a by (simp add: engines_agree_def)
qed

lemma agree_run:
  assumes "engine_inv n" and "engines_agree n l" and "\<forall>c \<in> set cs. session_call c"
  shows "engines_agree (run cs n) (run_legacy cs l)"
  using assms
proof (induction cs arbitrary: n l)
  case Nil
  then show ?case by simp
next
  case (Cons c cs)
  have sc: "session_call c" and rest: "\<forall>c \<in> set cs. session_call c"
    using Cons.prems(3) by simp_all
  have step: "engines_agree (exec c n) (exec_legacy c l)"
  proof (cases c)
    case Tick
    then show ?thesis using agree_tick [OF Cons.prems(1,2)] by simp
  next
    case (SetBPM b)
    then have "40 \<le> b" "b \<le> 300" using sc by simp_all
    then show ?thesis using agree_setBPM [OF Cons.prems(1,2)] SetBPM by simp
  qed (use sc in simp_all)
  have inv: "engine_inv (exec c n)" using Cons.prems(1) by (rule engine_inv_exec)
  show ?case using Cons.IH [OF inv step rest] by simp
qed

lemmas engine_defs =
  start_def stop_def setBPM_def playBeat_def scheduleNextBeat_def setTimeout_def
  clearTimeout_def tick_def fire_def run_callback_def interval_of_def js_rem_def
  MetronomeSound0_def

lemmas legacy_defs =
  start_legacy_def stop_legacy_def setBPM_legacy_def playBeat_legacy_def
  setInterval_legacy_def clearInterval_legacy_def tick_legacy_def fire_legacy_def
  interval_of_def js_rem_def LegacyMetronome0_def




end
